theory Spec2Isabelle
  imports Main "HOL-Library.Word" "HOL-Library.Monad_Syntax"
begin

section \<open>The LRU cache of \<^verbatim>\<open>lru.go\<close>\<close>

text \<open>
  The cache of \<^verbatim>\<open>src/lru.go\<close> is a slot array whose nodes carry two link fields
  (indices into the same array), a key index (a Go map from key to slot index), the
  cursors \<^verbatim>\<open>head\<close> and \<^verbatim>\<open>tail\<close>, a length and a capacity.

  Conventions of the embedding:
  \<^item> Go's \<^verbatim>\<open>int\<close> (the fields \<^verbatim>\<open>len\<close>, \<^verbatim>\<open>head\<close>, \<^verbatim>\<open>tail\<close>, \<^verbatim>\<open>next\<close>,
    \<^verbatim>\<open>last\<close>) is \<open>int\<close>; \<^verbatim>\<open>cap\<close> is a \<^verbatim>\<open>uint64\<close>, here \<open>64 word\<close>. The only
    arithmetic on an \<^verbatim>\<open>int\<close> is \<^verbatim>\<open>c.len++\<close>, behind the test \<^verbatim>\<open>uint64(c.len) < c.cap\<close>,
    so no wrap-around is written out; the allocation of \<^verbatim>\<open>New\<close> is taken to succeed;
  \<^item> every index expression \<^verbatim>\<open>c.data[i]\<close> and every slice expression
    \<^verbatim>\<open>c.data[:n]\<close> is bounds-checked as the Go runtime does; a failed check is a
    panic, and a panicking operation returns \<open>None\<close>;
  \<^item> the zero value of a Go type is \<open>default\<close> of the class \<open>default\<close>;
  \<^item> \<^verbatim>\<open>K\<close> is any \<^verbatim>\<open>comparable\<close> type, and the map \<^verbatim>\<open>c.keys\<close> finds, deletes and
    overwrites entries by \<^verbatim>\<open>K\<close>'s \<^verbatim>\<open>==\<close>, which is not reflexive on every type: a
    floating-point NaN (or a struct, array or interface value holding one) is equal to
    nothing, itself included. The functions that use the map take the equality of
    \<^verbatim>\<open>K\<close> as their first argument, see \<open>go_eq\<close>, and the map is a list of entries,
    so that entries that no lookup finds are still there. The values of \<open>'k\<close> are the
    keys a map can hash: where \<^verbatim>\<open>K\<close> is an interface type, a key whose dynamic type is
    not comparable makes every map operation panic, and is not a value of \<open>'k\<close>;
  \<^item> the mutex is not modelled: operations are executed one after the other;
  \<^item> the eviction callback is a Go closure, so it may have effects of its own. It is
    a function on a state \<open>'w\<close> (everything the closure can reach, which excludes the
    cache, whose lock is held while it runs) returning its error and the new state.
\<close>

subsection \<open>Zero values\<close>

instantiation int :: default
begin
definition default_int :: int where "default_int = 0"
instance ..
end

instantiation list :: (type) default
begin
definition default_list :: "'a list" where "default_list = []"
instance ..
end

subsection \<open>Keys and Go maps\<close>

text \<open>
  \<^verbatim>\<open>a == b\<close> on a comparable type. \<open>nan\<close> holds the values of the type that are not
  equal to themselves (it is \<open>\<lambda>_. False\<close> for strings and integers). A value that is
  equal to itself is \<^verbatim>\<open>==\<close> to itself only: values that \<^verbatim>\<open>==\<close> identifies, such as the
  floats \<^verbatim>\<open>+0\<close> and \<^verbatim>\<open>-0\<close>, are taken as one value.
\<close>

definition go_eq :: "('k \<Rightarrow> bool) \<Rightarrow> 'k \<Rightarrow> 'k \<Rightarrow> bool" where
  "go_eq nan a b \<longleftrightarrow> a = b \<and> \<not> nan a"

text \<open>
  A Go map is the list of its entries; the order of the list stands for nothing, as the
  code never ranges over the map. \<open>map_lookup\<close> is \<^verbatim>\<open>v, ok := m[k]\<close>, \<open>map_delete\<close>
  is \<^verbatim>\<open>delete(m, k)\<close>, \<open>map_assign\<close> is \<^verbatim>\<open>m[k] = v\<close>, and \<^verbatim>\<open>clear(m)\<close> leaves the
  empty list. An assignment to a key that is \<^verbatim>\<open>==\<close> to no key of the map adds an entry.
\<close>

definition map_lookup :: "('k \<Rightarrow> bool) \<Rightarrow> ('k \<times> 'a) list \<Rightarrow> 'k \<Rightarrow> 'a option" where
  "map_lookup nan m k = map_option snd (find (\<lambda>e. go_eq nan (fst e) k) m)"

definition map_delete :: "('k \<Rightarrow> bool) \<Rightarrow> ('k \<times> 'a) list \<Rightarrow> 'k \<Rightarrow> ('k \<times> 'a) list" where
  "map_delete nan m k = filter (\<lambda>e. \<not> go_eq nan (fst e) k) m"

definition map_assign :: "('k \<Rightarrow> bool) \<Rightarrow> ('k \<times> 'a) list \<Rightarrow> 'k \<Rightarrow> 'a \<Rightarrow> ('k \<times> 'a) list" where
  "map_assign nan m k v =
     (if list_ex (\<lambda>e. go_eq nan (fst e) k) m
      then map (\<lambda>e. if go_eq nan (fst e) k then (fst e, v) else e) m
      else m @ [(k, v)])"

text \<open>
  A key type with a value that is not equal to itself: \<^verbatim>\<open>float64\<close>, cut down to NaN
  and the integral values. Its zero value is the number 0.
\<close>

datatype fkey = is_NaN: NaN | Num int

instantiation fkey :: default
begin
definition default_fkey :: fkey where "default_fkey = Num 0"
instance ..
end

subsection \<open>Errors and \<^verbatim>\<open>errors.Join\<close>\<close>

text \<open>
  A Go \<^verbatim>\<open>error\<close> value is either some error of the caller (\<open>Err\<close>) or the
  \<^verbatim>\<open>joinError\<close> that the standard library's \<^verbatim>\<open>errors.Join\<close> builds, which wraps the
  list of errors it was given. The \<^verbatim>\<open>nil\<close> error is \<open>None\<close>.
\<close>

datatype 'e error = Err 'e | JoinError "'e error list"

text \<open>
  \<^verbatim>\<open>errors.Join(errs...)\<close> of the Go standard library: nil arguments are discarded,
  the result is nil when nothing is left, and otherwise a \<^verbatim>\<open>joinError\<close> wrapping the
  remaining errors in their order.
\<close>

definition errors_Join :: "'e error option list \<Rightarrow> 'e error option" where
  "errors_Join errs =
     (let es = List.map_filter id errs
      in if es = [] then None else Some (JoinError es))"

text \<open>The errors of the caller that an error value wraps, left to right.\<close>

fun wrapped :: "'e error \<Rightarrow> 'e list" where
  "wrapped (Err e) = [e]"
| "wrapped (JoinError es) = concat (map wrapped es)"

definition wrapped_opt :: "'e error option \<Rightarrow> 'e list" where
  "wrapped_opt r = (case r of None \<Rightarrow> [] | Some e \<Rightarrow> wrapped e)"

subsection \<open>Data model\<close>

record ('k, 'v) node =
  "next" :: int
  last' :: int
  key :: 'k
  val :: 'v

type_synonym ('k, 'v, 'e, 'w) evict_func = "'k \<Rightarrow> 'v \<Rightarrow> 'w \<Rightarrow> 'e error option \<times> 'w"

record ('k, 'v, 'e, 'w) cache =
  len :: int
  head :: int
  tail :: int
  cap :: "64 word"
  evict :: "('k, 'v, 'e, 'w) evict_func option"
  data :: "('k, 'v) node list"
  keys :: "('k \<times> int) list"

text \<open>The zero value of \<^verbatim>\<open>node[K, V]\<close>, which \<^verbatim>\<open>make\<close> and \<^verbatim>\<open>clear\<close> store.\<close>

definition zero_node :: "('k::default, 'v::default) node" where
  "zero_node = \<lparr>next = 0, last' = 0, key = default, val = default\<rparr>"

subsection \<open>Bounds-checked slice access\<close>

definition in_range :: "int \<Rightarrow> 'a list \<Rightarrow> bool" where
  "in_range i xs \<longleftrightarrow> 0 \<le> i \<and> i < int (length xs)"

text \<open>\<^verbatim>\<open>xs[i].f = ...\<close>: the element at \<open>i\<close> is replaced by \<open>g\<close> of it.\<close>

definition modify_at :: "int \<Rightarrow> ('a \<Rightarrow> 'a) \<Rightarrow> 'a list \<Rightarrow> 'a list option" where
  "modify_at i g xs =
     (if in_range i xs then Some (xs[nat i := g (xs ! nat i)]) else None)"

text \<open>\<^verbatim>\<open>xs[:n]\<close>, for a slice whose capacity is its length.\<close>

definition slice_to :: "int \<Rightarrow> 'a list \<Rightarrow> 'a list option" where
  "slice_to n xs =
     (if 0 \<le> n \<and> n \<le> int (length xs) then Some (take (nat n) xs) else None)"

text \<open>The conversion \<^verbatim>\<open>uint64(n)\<close> of a Go \<^verbatim>\<open>int\<close>.\<close>

definition uint64 :: "int \<Rightarrow> 64 word" where
  "uint64 n = word_of_int n"

subsection \<open>Operations\<close>

definition New :: "64 word \<Rightarrow> ('k, 'v, 'e, 'w) evict_func option
    \<Rightarrow> ('k::default, 'v::default, 'e, 'w) cache" where
  "New cp ev =
     \<lparr>len = 0, head = 0, tail = 0, cap = cp, evict = ev,
      data = replicate (unat cp) zero_node, keys = []\<rparr>"

text \<open>
  \<^verbatim>\<open>promote\<close>. \<^verbatim>\<open>ptr\<close> points into \<^verbatim>\<open>c.data\<close>, so each read of \<^verbatim>\<open>ptr.next\<close> or
  \<^verbatim>\<open>ptr.last\<close> is a read of the slot array as it is at that statement.
\<close>

definition promote :: "int \<Rightarrow> ('k, 'v, 'e, 'w) cache \<Rightarrow> ('k, 'v, 'e, 'w) cache option" where
  "promote i c =
     (if \<not> in_range i (data c) then None
      else if i = head c then Some c
      else do {
        c1 \<leftarrow> (if i = tail c then Some (c\<lparr>tail := last' (data c ! nat i)\<rparr>)
               else do {
                 d1 \<leftarrow> modify_at (last' (data c ! nat i))
                        (\<lambda>n. n\<lparr>next := next (data c ! nat i)\<rparr>) (data c);
                 d2 \<leftarrow> modify_at (next (d1 ! nat i))
                        (\<lambda>n. n\<lparr>last' := last' (d1 ! nat i)\<rparr>) d1;
                 Some (c\<lparr>data := d2\<rparr>)
               });
        d3 \<leftarrow> modify_at i (\<lambda>n. n\<lparr>next := head c1\<rparr>) (data c1);
        d4 \<leftarrow> modify_at (head c1) (\<lambda>n. n\<lparr>last' := i\<rparr>) d3;
        Some (c1\<lparr>data := d4, head := i\<rparr>)
      })"

definition Get :: "('k \<Rightarrow> bool) \<Rightarrow> 'k \<Rightarrow> ('k, 'v::default, 'e, 'w) cache
    \<Rightarrow> (('v \<times> bool) \<times> ('k, 'v, 'e, 'w) cache) option" where
  "Get nan k c =
     (case map_lookup nan (keys c) k of
        Some i \<Rightarrow>
          if \<not> in_range i (data c) then None
          else
            let v = val (data c ! nat i)
            in do {
              c' \<leftarrow> promote i c;
              Some ((v, True), c')
            }
      | None \<Rightarrow> Some ((default, False), c))"

definition Put :: "('k \<Rightarrow> bool) \<Rightarrow> 'k \<Rightarrow> 'v \<Rightarrow> ('k, 'v, 'e, 'w) cache \<Rightarrow> 'w
    \<Rightarrow> ('e error option \<times> ('k, 'v, 'e, 'w) cache \<times> 'w) option" where
  "Put nan k v c w =
     (if cap c = 0 then Some (None, c, w)
      else case map_lookup nan (keys c) k of
        Some i \<Rightarrow> do {
          d \<leftarrow> modify_at i (\<lambda>n. n\<lparr>val := v\<rparr>) (data c);
          c' \<leftarrow> promote i (c\<lparr>data := d\<rparr>);
          Some (None, c', w)
        }
      | None \<Rightarrow>
          if uint64 (len c) < cap c then do {
            d1 \<leftarrow> modify_at (len c)
                   (\<lambda>_. \<lparr>next = head c, last' = 0, key = k, val = v\<rparr>) (data c);
            d2 \<leftarrow> modify_at (head c) (\<lambda>n. n\<lparr>last' := len c\<rparr>) d1;
            Some (None,
                  c\<lparr>data := d2, head := len c,
                    keys := map_assign nan (keys c) k (len c), len := len c + 1\<rparr>,
                  w)
          }
          else if \<not> in_range (tail c) (data c) then None
          else
            let victim = data c ! nat (tail c);
                (err, w') = (case evict c of
                               None \<Rightarrow> (None, w)
                             | Some f \<Rightarrow> f (key victim) (val victim) w);
                ks = map_assign nan (map_delete nan (keys c) (key victim)) k (tail c);
                d = (data c)[nat (tail c) := victim\<lparr>key := k, val := v\<rparr>]
            in do {
              c' \<leftarrow> promote (tail c) (c\<lparr>keys := ks, data := d\<rparr>);
              Some (err, c', w')
            })"

text \<open>The loop of \<^verbatim>\<open>Clear\<close> over \<^verbatim>\<open>c.data[:c.len]\<close>.\<close>

fun evict_each :: "('k, 'v, 'e, 'w) evict_func \<Rightarrow> ('k, 'v) node list
    \<Rightarrow> 'e error option \<Rightarrow> 'w \<Rightarrow> 'e error option \<times> 'w" where
  "evict_each f [] err w = (err, w)"
| "evict_each f (n # ns) err w =
     (let (r, w') = f (key n) (val n) w
      in evict_each f ns (errors_Join [err, r]) w')"

definition Clear :: "('k::default, 'v::default, 'e, 'w) cache \<Rightarrow> 'w
    \<Rightarrow> ('e error option \<times> ('k, 'v, 'e, 'w) cache \<times> 'w) option" where
  "Clear c w = do {
     (err, w') \<leftarrow> (case evict c of
                     None \<Rightarrow> Some (None, w)
                   | Some f \<Rightarrow> do {
                       ns \<leftarrow> slice_to (len c) (data c);
                       Some (evict_each f ns None w)
                     });
     ns \<leftarrow> slice_to (len c) (data c);
     Some (err,
           c\<lparr>data := replicate (length ns) zero_node @ drop (length ns) (data c),
             keys := [], len := 0\<rparr>,
           w')
   }"

text \<open>
  The iterators. \<^verbatim>\<open>All\<close>, \<^verbatim>\<open>Keys\<close> and \<^verbatim>\<open>Values\<close> return a closure over the cache
  pointer; the closure reads the cache when it is called with the consumer's
  \<^verbatim>\<open>yield\<close>. The consumer has a state \<open>'s\<close> of its own and answers whether it wants
  more. \<open>range_yield\<close> is the \<^verbatim>\<open>for ... range\<close> loop with its early \<^verbatim>\<open>return\<close>.
\<close>

fun range_yield :: "('a \<Rightarrow> 's \<Rightarrow> bool \<times> 's) \<Rightarrow> 'a list \<Rightarrow> 's \<Rightarrow> 's" where
  "range_yield yield [] s = s"
| "range_yield yield (n # ns) s =
     (let (more, s') = yield n s
      in if more then range_yield yield ns s' else s')"

definition All' :: "('k, 'v, 'e, 'w) cache \<Rightarrow> ('k \<Rightarrow> 'v \<Rightarrow> 's \<Rightarrow> bool \<times> 's) \<Rightarrow> 's \<Rightarrow> 's option" where
  "All' c yield s = do {
     ns \<leftarrow> slice_to (len c) (data c);
     Some (range_yield (\<lambda>n. yield (key n) (val n)) ns s)
   }"

definition Keys :: "('k, 'v, 'e, 'w) cache \<Rightarrow> ('k \<Rightarrow> 's \<Rightarrow> bool \<times> 's) \<Rightarrow> 's \<Rightarrow> 's option" where
  "Keys c yield s = do {
     ns \<leftarrow> slice_to (len c) (data c);
     Some (range_yield (\<lambda>n. yield (key n)) ns s)
   }"

definition Values :: "('k, 'v, 'e, 'w) cache \<Rightarrow> ('v \<Rightarrow> 's \<Rightarrow> bool \<times> 's) \<Rightarrow> 's \<Rightarrow> 's option" where
  "Values c yield s = do {
     ns \<leftarrow> slice_to (len c) (data c);
     Some (range_yield (\<lambda>n. yield (val n)) ns s)
   }"

subsection \<open>Sequences of operations\<close>

text \<open>
  A consumer of an iterator that keeps what it is given. With \<open>None\<close> it never
  stops; with \<open>Some m\<close> it breaks out of its loop at the element of index \<open>m\<close>.
\<close>

definition collect :: "nat option \<Rightarrow> 'a \<Rightarrow> 'a list \<Rightarrow> bool \<times> 'a list" where
  "collect stop x acc = (Some (length acc) \<noteq> stop, acc @ [x])"

datatype ('k, 'v) op =
    OpGet 'k
  | OpPut 'k 'v
  | OpClear
  | OpAll "nat option"
  | OpKeys "nat option"
  | OpValues "nat option"

datatype ('k, 'v, 'e) result =
    GetRes 'v bool
  | PutRes "'e error option"
  | ClearRes "'e error option"
  | AllRes "('k \<times> 'v) list"
  | KeysRes "'k list"
  | ValuesRes "'v list"

fun step :: "('k \<Rightarrow> bool) \<Rightarrow> ('k, 'v) op \<Rightarrow> ('k::default, 'v::default, 'e, 'w) cache \<Rightarrow> 'w
    \<Rightarrow> (('k, 'v, 'e) result \<times> ('k, 'v, 'e, 'w) cache \<times> 'w) option" where
  "step nan (OpGet k) c w =
     do { ((v, ok), c') \<leftarrow> Get nan k c; Some (GetRes v ok, c', w) }"
| "step nan (OpPut k v) c w =
     do { (err, c', w') \<leftarrow> Put nan k v c w; Some (PutRes err, c', w') }"
| "step nan OpClear c w = do { (err, c', w') \<leftarrow> Clear c w; Some (ClearRes err, c', w') }"
| "step nan (OpAll stop) c w =
     do { kvs \<leftarrow> All' c (\<lambda>k v. collect stop (k, v)) []; Some (AllRes kvs, c, w) }"
| "step nan (OpKeys stop) c w =
     do { ks \<leftarrow> Keys c (collect stop) []; Some (KeysRes ks, c, w) }"
| "step nan (OpValues stop) c w =
     do { vs \<leftarrow> Values c (collect stop) []; Some (ValuesRes vs, c, w) }"

fun run :: "('k \<Rightarrow> bool) \<Rightarrow> ('k, 'v) op list \<Rightarrow> ('k::default, 'v::default, 'e, 'w) cache \<Rightarrow> 'w
    \<Rightarrow> (('k, 'v, 'e) result list \<times> ('k, 'v, 'e, 'w) cache \<times> 'w) option" where
  "run nan [] c w = Some ([], c, w)"
| "run nan (x # xs) c w = do {
     (r, c', w') \<leftarrow> step nan x c w;
     (rs, c'', w'') \<leftarrow> run nan xs c' w';
     Some (r # rs, c'', w'')
   }"

text \<open>A callback that records each invocation and reports what \<open>errf\<close> says.\<close>

definition recording :: "('k \<Rightarrow> 'v \<Rightarrow> 'e error option) \<Rightarrow> ('k, 'v, 'e, ('k \<times> 'v) list) evict_func" where
  "recording errf k v calls = (errf k v, calls @ [(k, v)])"

subsection \<open>Invariants\<close>

text \<open>
  \<open>links_ok\<close>: the slot array has \<^verbatim>\<open>cap\<close> slots, the length is between 0 and the
  capacity, and every index stored in the cache (the cursors, unless the capacity is 0,
  and the link fields of every slot) is an index of the slot array.
  \<open>index_ok\<close>: what a lookup finds is an active slot holding the key looked up, and
  every active slot whose key is equal to itself is found under its key.
  \<open>no_nan\<close>: every key of the map and of the active slots is equal to itself, and the
  map has one entry for a key.
\<close>

definition node_ok :: "int \<Rightarrow> ('k, 'v) node \<Rightarrow> bool" where
  "node_ok m n \<longleftrightarrow> 0 \<le> next n \<and> next n < m \<and> 0 \<le> last' n \<and> last' n < m"

definition links_ok :: "('k, 'v, 'e, 'w) cache \<Rightarrow> bool" where
  "links_ok c \<longleftrightarrow>
     unat (cap c) = length (data c) \<and>
     0 \<le> len c \<and> len c \<le> int (length (data c)) \<and>
     (cap c \<noteq> 0 \<longrightarrow> in_range (head c) (data c) \<and> in_range (tail c) (data c)) \<and>
     list_all (node_ok (int (length (data c)))) (data c)"

definition index_rel :: "('k \<Rightarrow> bool) \<Rightarrow> ('k \<rightharpoonup> int) \<Rightarrow> int \<Rightarrow> 'k list \<Rightarrow> bool" where
  "index_rel nan ks n xs \<longleftrightarrow>
     (\<forall>k i. ks k = Some i \<longrightarrow> 0 \<le> i \<and> i < n \<and> xs ! nat i = k \<and> \<not> nan k) \<and>
     (\<forall>i. 0 \<le> i \<and> i < n \<and> \<not> nan (xs ! nat i) \<longrightarrow> ks (xs ! nat i) = Some i)"

definition index_ok :: "('k \<Rightarrow> bool) \<Rightarrow> ('k, 'v, 'e, 'w) cache \<Rightarrow> bool" where
  "index_ok nan c \<longleftrightarrow> index_rel nan (map_lookup nan (keys c)) (len c) (map key (data c))"

definition cache_inv :: "('k \<Rightarrow> bool) \<Rightarrow> ('k, 'v, 'e, 'w) cache \<Rightarrow> bool" where
  "cache_inv nan c \<longleftrightarrow> links_ok c \<and> index_ok nan c"

definition no_nan :: "('k \<Rightarrow> bool) \<Rightarrow> ('k, 'v, 'e, 'w) cache \<Rightarrow> bool" where
  "no_nan nan c \<longleftrightarrow>
     list_all (\<lambda>e. \<not> nan (fst e)) (keys c) \<and> distinct (map fst (keys c)) \<and>
     list_all (\<lambda>n. \<not> nan (key n)) (take (nat (len c)) (data c))"

text \<open>The keys that a sequence of operations passes to \<^verbatim>\<open>Put\<close>.\<close>

fun put_keys :: "('k, 'v) op list \<Rightarrow> 'k list" where
  "put_keys [] = []"
| "put_keys (OpPut k v # xs) = k # put_keys xs"
| "put_keys (x # xs) = put_keys xs"

subsection \<open>The recency list\<close>

text \<open>
  The recency list of a cache: the slots met from \<^verbatim>\<open>head\<close> along the \<^verbatim>\<open>next\<close> fields,
  as many as the length says, most recently used first. It is well formed
  (\<open>recency_ok\<close>) when it holds every active slot once, the \<^verbatim>\<open>last\<close> field of each of
  its slots but the first is the slot before it, and \<^verbatim>\<open>tail\<close> is its last slot.
\<close>

fun chain :: "('k, 'v) node list \<Rightarrow> int \<Rightarrow> nat \<Rightarrow> int list" where
  "chain d h 0 = []"
| "chain d h (Suc n) = h # chain d (next (d ! nat h)) n"

definition recency :: "('k, 'v, 'e, 'w) cache \<Rightarrow> int list" where
  "recency c = chain (data c) (head c) (nat (len c))"

definition dll :: "('k, 'v, 'e, 'w) cache \<Rightarrow> int list \<Rightarrow> bool" where
  "dll c xs \<longleftrightarrow>
     distinct xs \<and> set xs = {0..<len c} \<and>
     successively (\<lambda>x y. next (data c ! nat x) = y \<and> last' (data c ! nat y) = x) xs \<and>
     (xs = [] \<and> tail c = 0 \<or> xs \<noteq> [] \<and> head c = hd xs \<and> tail c = last xs)"

definition recency_ok :: "('k, 'v, 'e, 'w) cache \<Rightarrow> bool" where
  "recency_ok c \<longleftrightarrow> dll c (recency c)"

text \<open>The same links, read from the lists of the \<^verbatim>\<open>next\<close> and of the \<^verbatim>\<open>last\<close> fields.\<close>

definition linked :: "int list \<Rightarrow> int list \<Rightarrow> int list \<Rightarrow> bool" where
  "linked nx ls xs \<longleftrightarrow> successively (\<lambda>x y. nx ! nat x = y \<and> ls ! nat y = x) xs"

subsection \<open>Example caches\<close>

text \<open>
  A full cache of capacity 2 as \<^verbatim>\<open>Put("a", 1); Put("b", 2)\<close> leave it, with a callback
  that records its invocations and fails every time, with the key as its error.
\<close>

definition two_entries :: "(string, int, string, (string \<times> int) list) cache" where
  "two_entries =
     \<lparr>len = 2, head = 1, tail = 0, cap = 2,
      evict = Some (recording (\<lambda>k v. Some (Err k))),
      data = [\<lparr>next = 0, last' = 1, key = ''a'', val = 1\<rparr>,
              \<lparr>next = 0, last' = 0, key = ''b'', val = 2\<rparr>],
      keys = [(''a'', 0), (''b'', 1)]\<rparr>"


section \<open>Preservation of the invariants\<close>

subsection \<open>Slot updates\<close>

lemma modify_at_Some:
  "in_range i xs \<Longrightarrow> modify_at i g xs = Some (xs[nat i := g (xs ! nat i)])"
  by (simp add: modify_at_def)

lemma in_range_nth:
  "in_range i xs \<Longrightarrow> list_all P xs \<Longrightarrow> P (xs ! nat i)"
  by (simp add: in_range_def list_all_length nat_less_iff)

lemma list_all_update:
  "list_all P xs \<Longrightarrow> P x \<Longrightarrow> list_all P (xs[j := x])"
  by (metis list_all_length length_list_update nth_list_update nth_list_update_neq)

lemma in_range_length:
  "length xs = length ys \<Longrightarrow> in_range i xs = in_range i ys"
  by (simp add: in_range_def)

lemma map_update_same:
  "f x = f (xs ! j) \<Longrightarrow> map f (xs[j := x]) = map f xs"
  by (cases "j < length xs") (simp_all add: map_update list_update_same_conv list_update_beyond)

lemma modify_at_ok:
  assumes "list_all (node_ok (int (length d))) d" and "in_range j d"
    and "\<And>n. node_ok (int (length d)) n \<Longrightarrow> node_ok (int (length d)) (g n)"
    and "\<And>n. key (g n) = key n" and "\<And>n. val (g n) = val n"
  shows "\<exists>d'. modify_at j g d = Some d' \<and> length d' = length d \<and>
    list_all (node_ok (int (length d))) d' \<and> map key d' = map key d \<and> map val d' = map val d"
proof -
  let ?d = "d[nat j := g (d ! nat j)]"
  have "modify_at j g d = Some ?d" using assms(2) by (rule modify_at_Some)
  moreover have "node_ok (int (length d)) (d ! nat j)" using assms(2,1) by (rule in_range_nth)
  then have "list_all (node_ok (int (length d))) ?d"
    using assms(1,3) by (simp add: list_all_update)
  moreover have "map key ?d = map key d" by (simp add: map_update_same assms(4))
  moreover have "map val ?d = map val d" by (simp add: map_update_same assms(5))
  ultimately show ?thesis by simp
qed

lemma links_ok_nonempty:
  "links_ok c \<Longrightarrow> in_range i (data c) \<Longrightarrow> cap c \<noteq> 0"
  by (auto simp: links_ok_def in_range_def)

lemma promote_ok:
  assumes L: "links_ok c" and I: "in_range i (data c)"
  shows "\<exists>c'. promote i c = Some c' \<and> links_ok c' \<and> keys c' = keys c \<and> len c' = len c \<and>
    cap c' = cap c \<and> evict c' = evict c \<and> map key (data c') = map key (data c) \<and>
    map val (data c') = map val (data c) \<and> head c' = i"
proof (cases "i = head c")
  case True
  then show ?thesis using L I by (simp add: promote_def)
next
  case nh: False
  let ?m = "int (length (data c))"
  let ?p = "data c ! nat i"
  have nz: "cap c \<noteq> 0" using L I by (rule links_ok_nonempty)
  have H: "in_range (head c) (data c)" and T: "in_range (tail c) (data c)"
    and A: "list_all (node_ok ?m) (data c)"
    and len: "unat (cap c) = length (data c)" "0 \<le> len c" "len c \<le> ?m"
    using L nz by (simp_all add: links_ok_def)
  have P: "node_ok ?m ?p" using I A by (rule in_range_nth)
  have relink: "\<exists>d4. (do { d3 \<leftarrow> modify_at i (\<lambda>n. n\<lparr>next := head c\<rparr>) d;
                          modify_at (head c) (\<lambda>n. n\<lparr>last' := i\<rparr>) d3 }) = Some d4 \<and>
      length d4 = length d \<and> list_all (node_ok ?m) d4 \<and>
      map key d4 = map key d \<and> map val d4 = map val d"
    if d: "length d = length (data c)" "list_all (node_ok ?m) d" for d
  proof -
    have Id: "in_range i d" using I d(1) by (simp add: in_range_def)
    have "\<And>n. node_ok (int (length d)) n \<Longrightarrow> node_ok (int (length d)) (n\<lparr>next := head c\<rparr>)"
      using H d(1) by (simp add: node_ok_def in_range_def)
    with d Id obtain d3 where d3: "modify_at i (\<lambda>n. n\<lparr>next := head c\<rparr>) d = Some d3"
      "length d3 = length d" "list_all (node_ok (int (length d))) d3"
      "map key d3 = map key d" "map val d3 = map val d"
      using modify_at_ok[of d i "\<lambda>n. n\<lparr>next := head c\<rparr>"] by auto
    have Hd: "in_range (head c) d3" using H d(1) d3(2) by (simp add: in_range_def)
    have "\<And>n. node_ok (int (length d3)) n \<Longrightarrow> node_ok (int (length d3)) (n\<lparr>last' := i\<rparr>)"
      using I d(1) d3(2) by (simp add: node_ok_def in_range_def)
    with d3 Hd obtain d4 where d4: "modify_at (head c) (\<lambda>n. n\<lparr>last' := i\<rparr>) d3 = Some d4"
      "length d4 = length d3" "list_all (node_ok (int (length d3))) d4"
      "map key d4 = map key d3" "map val d4 = map val d3"
      using modify_at_ok[of d3 "head c" "\<lambda>n. n\<lparr>last' := i\<rparr>"] by auto
    show ?thesis using d3 d4 d by simp
  qed
  show ?thesis
  proof (cases "i = tail c")
    case True
    from relink[OF refl A] obtain d4 where
      d4: "(do { d3 \<leftarrow> modify_at i (\<lambda>n. n\<lparr>next := head c\<rparr>) (data c);
                 modify_at (head c) (\<lambda>n. n\<lparr>last' := i\<rparr>) d3 }) = Some d4"
      "length d4 = length (data c)" "list_all (node_ok ?m) d4"
      "map key d4 = map key (data c)" "map val d4 = map val (data c)"
      by blast
    let ?c' = "c\<lparr>tail := last' ?p, data := d4, head := i\<rparr>"
    have "promote i c = Some ?c'"
      using I nh True d4(1) by (auto simp: promote_def split: bind_splits)
    moreover have "links_ok ?c'"
      using P I d4 len nz by (simp add: links_ok_def node_ok_def in_range_def)
    ultimately show ?thesis using d4 by simp
  next
    case nt: False
    have "\<And>n. node_ok ?m n \<Longrightarrow> node_ok ?m (n\<lparr>next := next ?p\<rparr>)"
      using P by (simp add: node_ok_def)
    moreover have "in_range (last' ?p) (data c)" using P by (simp add: node_ok_def in_range_def)
    ultimately obtain d1 where d1: "modify_at (last' ?p) (\<lambda>n. n\<lparr>next := next ?p\<rparr>) (data c) = Some d1"
      "length d1 = length (data c)" "list_all (node_ok ?m) d1"
      "map key d1 = map key (data c)" "map val d1 = map val (data c)"
      using modify_at_ok[OF A, of "last' ?p" "\<lambda>n. n\<lparr>next := next ?p\<rparr>"] by auto
    have P1: "node_ok ?m (d1 ! nat i)"
      using I d1(2,3) by (simp add: in_range_def list_all_length nat_less_iff)
    have "\<And>n. node_ok (int (length d1)) n \<Longrightarrow> node_ok (int (length d1)) (n\<lparr>last' := last' (d1 ! nat i)\<rparr>)"
      using P1 d1(2) by (simp add: node_ok_def)
    moreover have "in_range (next (d1 ! nat i)) d1"
      using P1 d1(2) by (simp add: node_ok_def in_range_def)
    moreover have "list_all (node_ok (int (length d1))) d1" using d1 by simp
    ultimately obtain d2 where d2: "modify_at (next (d1 ! nat i)) (\<lambda>n. n\<lparr>last' := last' (d1 ! nat i)\<rparr>) d1 = Some d2"
      "length d2 = length d1" "list_all (node_ok (int (length d1))) d2"
      "map key d2 = map key d1" "map val d2 = map val d1"
      using modify_at_ok[of d1 "next (d1 ! nat i)" "\<lambda>n. n\<lparr>last' := last' (d1 ! nat i)\<rparr>"] by auto
    have "length d2 = length (data c)" "list_all (node_ok ?m) d2" using d1 d2 by simp_all
    from relink[OF this] obtain d4 where
      d4: "(do { d3 \<leftarrow> modify_at i (\<lambda>n. n\<lparr>next := head c\<rparr>) d2;
                 modify_at (head c) (\<lambda>n. n\<lparr>last' := i\<rparr>) d3 }) = Some d4"
      "length d4 = length d2" "list_all (node_ok ?m) d4"
      "map key d4 = map key d2" "map val d4 = map val d2"
      by blast
    let ?c' = "c\<lparr>data := d4, head := i\<rparr>"
    have "promote i c = Some ?c'"
      using I nh nt d1(1) d2(1) d4(1) by (auto simp: promote_def split: bind_splits)
    moreover have "links_ok ?c'"
      using T I d1 d2 d4 len nz by (simp add: links_ok_def in_range_def)
    ultimately show ?thesis using d1 d2 d4 by simp
  qed
qed

subsection \<open>Words\<close>

lemma uint64_less:
  assumes "0 \<le> l" "l \<le> int (unat cp)"
  shows "(uint64 l < cp) = (l < int (unat cp))"
proof -
  have "int (unat cp) < 2 ^ 64" using unsigned_less[of cp, where 'a=int] by simp
  then have "take_bit 64 l = l" using assms by (simp add: take_bit_int_eq_self)
  then have "uint (word_of_int l :: 64 word) = l" by (simp add: uint_word_of_int_eq)
  then show ?thesis by (simp add: uint64_def word_less_def)
qed

lemma uint_pos: "(0 < uint (w::64 word)) = (w \<noteq> 0)"
proof -
  have "0 \<le> uint w" by simp
  moreover have "(uint w = 0) = (w = 0)" by (rule uint_0_iff)
  ultimately show ?thesis by linarith
qed
lemma ex_less_unat: "(\<exists>n. n < unat (w::64 word)) = (w \<noteq> 0)"
  using unat_gt_0[of w] by auto

subsection \<open>The key index\<close>

lemma map_lookup_Some:
  assumes "map_lookup nan m k = Some i"
  shows "\<not> nan k" and "(k, i) \<in> set m"
proof -
  from assms obtain e where e: "find (\<lambda>e. go_eq nan (fst e) k) m = Some e" "snd e = i"
    by (auto simp: map_lookup_def)
  then have "go_eq nan (fst e) k" "e \<in> set m"
    by (auto simp: find_Some_iff)
  then show "\<not> nan k" "(k, i) \<in> set m" using e(2) by (auto simp: go_eq_def)
qed

lemma map_lookup_nan: "nan k \<Longrightarrow> map_lookup nan m k = None"
  by (cases "map_lookup nan m k") (auto dest: map_lookup_Some(1))

lemma map_lookup_Nil: "map_lookup nan [] k = None"
  by (simp add: map_lookup_def)

lemma map_lookup_Cons:
  "map_lookup nan (e # m) k = (if go_eq nan (fst e) k then Some (snd e) else map_lookup nan m k)"
  by (simp add: map_lookup_def)

lemma map_lookup_None_notin:
  "\<not> nan k \<Longrightarrow> map_lookup nan m k = None \<Longrightarrow> k \<notin> fst ` set m"
  by (induction m) (auto simp: map_lookup_Cons go_eq_def split: if_splits)

lemma map_lookup_delete:
  "map_lookup nan (map_delete nan m k) k' =
     (if go_eq nan k k' then None else map_lookup nan m k')"
  by (induction m) (auto simp: map_lookup_Cons map_lookup_Nil map_delete_def go_eq_def)

lemma map_assign_absent:
  "map_lookup nan m k = None \<Longrightarrow> map_assign nan m k v = m @ [(k, v)]"
  by (induction m) (auto simp: map_lookup_Cons map_assign_def split: if_splits)

lemma map_lookup_append1:
  "map_lookup nan (m @ [(k, v)]) k' =
     (case map_lookup nan m k' of
        Some i \<Rightarrow> Some i
      | None \<Rightarrow> if go_eq nan k k' then Some v else None)"
  by (induction m) (auto simp: map_lookup_Cons map_lookup_Nil)

lemma map_lookup_assign_absent:
  assumes "map_lookup nan m k = None"
  shows "map_lookup nan (map_assign nan m k v) k' =
     (if go_eq nan k k' then Some v else map_lookup nan m k')"
  using assms
  by (auto simp: map_assign_absent map_lookup_append1 go_eq_def split: option.splits)

lemma index_rel_empty: "index_rel nan (map_lookup nan []) 0 xs"
  by (simp add: index_rel_def map_lookup_Nil)

lemma index_rel_insert:
  assumes R: "index_rel nan ks n xs" and n: "0 \<le> n" "nat n < length xs" and k: "ks k = None"
    and ks': "\<And>k'. ks' k' = (if go_eq nan k k' then Some n else ks k')"
  shows "index_rel nan ks' (n + 1) (xs[nat n := k])"
  unfolding index_rel_def
proof (intro conjI allI impI)
  fix k' i assume a: "ks' k' = Some i"
  have "go_eq nan k k' \<and> i = n \<or> \<not> go_eq nan k k' \<and> ks k' = Some i"
    using a ks'[of k'] by (auto split: if_splits)
  then have r: "0 \<le> i \<and> i < n + 1 \<and> xs[nat n := k] ! nat i = k' \<and> \<not> nan k'"
  proof
    assume "go_eq nan k k' \<and> i = n"
    then show ?thesis using n by (auto simp: go_eq_def)
  next
    assume "\<not> go_eq nan k k' \<and> ks k' = Some i"
    then have c: "0 \<le> i" "i < n" "xs ! nat i = k'" "\<not> nan k'"
      using R by (auto simp: index_rel_def)
    then have "nat i \<noteq> nat n" by auto
    then show ?thesis using c by simp
  qed
  show "0 \<le> i" "i < n + 1" "xs[nat n := k] ! nat i = k'" "\<not> nan k'" using r by simp_all
next
  fix i assume a: "0 \<le> i \<and> i < n + 1 \<and> \<not> nan (xs[nat n := k] ! nat i)"
  show "ks' (xs[nat n := k] ! nat i) = Some i"
  proof (cases "i = n")
    case True
    then show ?thesis using a n ks'[of k] by (simp add: go_eq_def)
  next
    case False
    then have b: "0 \<le> i" "i < n" using a by auto
    then have ne: "nat i \<noteq> nat n" by auto
    then have e: "xs[nat n := k] ! nat i = xs ! nat i" by simp
    then have "\<not> nan (xs ! nat i)" using a by simp
    then have c: "ks (xs ! nat i) = Some i" using R b by (auto simp: index_rel_def)
    then have "xs ! nat i \<noteq> k" using k by auto
    then show ?thesis using c e ks'[of "xs ! nat i"] by (simp add: go_eq_def)
  qed
qed

lemma index_rel_replace:
  assumes R: "index_rel nan ks n xs" and t: "0 \<le> t" "t < n" "n \<le> int (length xs)"
    and k: "ks k = None"
    and ks': "\<And>k'. ks' k' = (if go_eq nan k k' then Some t
                               else if go_eq nan (xs ! nat t) k' then None else ks k')"
  shows "index_rel nan ks' n (xs[nat t := k])"
  unfolding index_rel_def
proof (intro conjI allI impI)
  have tl: "nat t < length xs" using t by auto
  fix k' i assume a: "ks' k' = Some i"
  have "go_eq nan k k' \<and> i = t \<or>
        \<not> go_eq nan k k' \<and> \<not> go_eq nan (xs ! nat t) k' \<and> ks k' = Some i"
    using a ks'[of k'] by (auto split: if_splits)
  then have r: "0 \<le> i \<and> i < n \<and> xs[nat t := k] ! nat i = k' \<and> \<not> nan k'"
  proof
    assume "go_eq nan k k' \<and> i = t"
    then show ?thesis using t tl by (auto simp: go_eq_def)
  next
    assume b: "\<not> go_eq nan k k' \<and> \<not> go_eq nan (xs ! nat t) k' \<and> ks k' = Some i"
    then have c: "0 \<le> i" "i < n" "xs ! nat i = k'" "\<not> nan k'"
      using R by (auto simp: index_rel_def)
    then have "i \<noteq> t" using b by (auto simp: go_eq_def)
    then have "nat i \<noteq> nat t" using c t by auto
    then show ?thesis using c by simp
  qed
  show "0 \<le> i" "i < n" "xs[nat t := k] ! nat i = k'" "\<not> nan k'" using r by simp_all
next
  have tl: "nat t < length xs" using t by auto
  fix i assume a: "0 \<le> i \<and> i < n \<and> \<not> nan (xs[nat t := k] ! nat i)"
  show "ks' (xs[nat t := k] ! nat i) = Some i"
  proof (cases "i = t")
    case True
    then show ?thesis using a tl ks'[of k] by (simp add: go_eq_def)
  next
    case False
    then have ne: "nat i \<noteq> nat t" using a t by auto
    then have e: "xs[nat t := k] ! nat i = xs ! nat i" by simp
    then have nn: "\<not> nan (xs ! nat i)" using a by simp
    then have c: "ks (xs ! nat i) = Some i" using R a by (auto simp: index_rel_def)
    then have 1: "xs ! nat i \<noteq> k" using k by auto
    have 2: "\<not> go_eq nan (xs ! nat t) (xs ! nat i)"
    proof
      assume g: "go_eq nan (xs ! nat t) (xs ! nat i)"
      then have nt: "\<not> nan (xs ! nat t)" and eq: "xs ! nat t = xs ! nat i"
        by (auto simp: go_eq_def)
      have "0 \<le> t \<and> t < n \<and> \<not> nan (xs ! nat t)" using t nt by simp
      then have "ks (xs ! nat t) = Some t" using R unfolding index_rel_def by blast
      then have "ks (xs ! nat i) = Some t" unfolding eq .
      then show False using c False by simp
    qed
    show ?thesis using c e 1 2 ks'[of "xs ! nat i"] by (simp add: go_eq_def)
  qed
qed

lemma index_rel_card:
  assumes R: "index_rel nan ks n xs" and n: "0 \<le> n"
    and nn: "\<And>j. j < nat n \<Longrightarrow> \<not> nan (xs ! j)"
  shows "card (dom ks) = nat n"
proof -
  let ?f = "\<lambda>j. xs ! j"
  have fwd: "ks (xs ! j) = Some (int j)" if "j < nat n" for j
  proof -
    have "0 \<le> int j \<and> int j < n \<and> \<not> nan (xs ! nat (int j))" using that nn[OF that] by auto
    then have "ks (xs ! nat (int j)) = Some (int j)"
      using R unfolding index_rel_def by blast
    then show ?thesis by simp
  qed
  have "dom ks = ?f ` {..<nat n}"
  proof (intro set_eqI iffI)
    fix k assume "k \<in> dom ks"
    then obtain i where "ks k = Some i" by auto
    then have "0 \<le> i" "i < n" "xs ! nat i = k" using R by (auto simp: index_rel_def)
    then have "nat i \<in> {..<nat n}" "?f (nat i) = k" by auto
    then show "k \<in> ?f ` {..<nat n}" by blast
  next
    fix k assume "k \<in> ?f ` {..<nat n}"
    then show "k \<in> dom ks" using fwd by auto
  qed
  moreover have "inj_on ?f {..<nat n}"
  proof (rule inj_onI)
    fix a b assume a: "a \<in> {..<nat n}" and b: "b \<in> {..<nat n}" and e: "xs ! a = xs ! b"
    have "ks (xs ! a) = Some (int a)" using a fwd by simp
    moreover have "ks (xs ! b) = Some (int b)" using b fwd by simp
    ultimately have "int a = int b" unfolding e by simp
    then show "a = b" by simp
  qed
  ultimately show ?thesis by (simp add: card_image)
qed

subsection \<open>The operations preserve the invariants\<close>

lemma index_ok_in_range:
  assumes "cache_inv nan c" "map_lookup nan (keys c) k = Some i"
  shows "in_range i (data c)" "0 \<le> i" "i < len c" "key (data c ! nat i) = k"
proof -
  have r: "0 \<le> i" "i < len c" "map key (data c) ! nat i = k"
    using assms by (auto simp: cache_inv_def index_ok_def index_rel_def)
  moreover have l: "len c \<le> int (length (data c))"
    using assms(1) by (simp add: cache_inv_def links_ok_def)
  ultimately show "in_range i (data c)" "0 \<le> i" "i < len c" by (simp_all add: in_range_def)
  have "nat i < length (data c)" using r l by auto
  then show "key (data c ! nat i) = k" using r(3) by simp
qed

lemma cache_inv_New: "cache_inv nan (New cp ev)"
  by (simp add: cache_inv_def links_ok_def index_ok_def index_rel_def New_def in_range_def
      list_all_length node_ok_def zero_node_def uint_pos ex_less_unat map_lookup_Nil)

lemma Get_miss:
  "map_lookup nan (keys c) k = None \<Longrightarrow> Get nan k c = Some ((default, False), c)"
  by (simp add: Get_def)

lemma Get_hit:
  assumes inv: "cache_inv nan c" and k: "map_lookup nan (keys c) k = Some i"
  shows "\<exists>c'. Get nan k c = Some ((val (data c ! nat i), True), c') \<and> cache_inv nan c' \<and>
    keys c' = keys c \<and> len c' = len c \<and> cap c' = cap c \<and> evict c' = evict c \<and>
    map key (data c') = map key (data c) \<and> map val (data c') = map val (data c) \<and> head c' = i"
proof -
  have I: "in_range i (data c)" using inv k by (rule index_ok_in_range)
  have L: "links_ok c" using inv by (simp add: cache_inv_def)
  from promote_ok[OF L I] obtain c' where c': "promote i c = Some c'" "links_ok c'"
    "keys c' = keys c" "len c' = len c" "cap c' = cap c" "evict c' = evict c"
    "map key (data c') = map key (data c)" "map val (data c') = map val (data c)" "head c' = i"
    by blast
  have "Get nan k c = Some ((val (data c ! nat i), True), c')"
    using k I c'(1) by (simp add: Get_def)
  moreover have "cache_inv nan c'" using inv c' by (simp add: cache_inv_def index_ok_def)
  ultimately show ?thesis using c' by simp
qed

lemma Put_present:
  assumes inv: "cache_inv nan c" and k: "map_lookup nan (keys c) k = Some i"
  shows "\<exists>c'. Put nan k v c w = Some (None, c', w) \<and> cache_inv nan c' \<and>
    keys c' = keys c \<and> len c' = len c \<and> cap c' = cap c \<and> evict c' = evict c \<and>
    map key (data c') = map key (data c) \<and>
    map val (data c') = (map val (data c))[nat i := v] \<and> head c' = i \<and>
    promote i (c\<lparr>data := (data c)[nat i := (data c ! nat i)\<lparr>val := v\<rparr>]\<rparr>) = Some c'"
proof -
  have I: "in_range i (data c)" using inv k by (rule index_ok_in_range)
  have L: "links_ok c" using inv by (simp add: cache_inv_def)
  have nz: "cap c \<noteq> 0" using L I by (rule links_ok_nonempty)
  let ?d = "(data c)[nat i := (data c ! nat i)\<lparr>val := v\<rparr>]"
  have d: "modify_at i (\<lambda>n. n\<lparr>val := v\<rparr>) (data c) = Some ?d" using I by (rule modify_at_Some)
  have P: "node_ok (int (length (data c))) (data c ! nat i)"
    using I L by (auto intro: in_range_nth simp: links_ok_def)
  have L': "links_ok (c\<lparr>data := ?d\<rparr>)"
    using L P by (simp add: links_ok_def in_range_def list_all_update node_ok_def)
  have I': "in_range i (data (c\<lparr>data := ?d\<rparr>))" using I by (simp add: in_range_def)
  from promote_ok[OF L' I'] obtain c' where c': "promote i (c\<lparr>data := ?d\<rparr>) = Some c'" "links_ok c'"
    "keys c' = keys c" "len c' = len c" "cap c' = cap c" "evict c' = evict c"
    "map key (data c') = map key ?d" "map val (data c') = map val ?d" "head c' = i"
    by auto
  have mk: "map key ?d = map key (data c)" by (simp add: map_update_same)
  have mv: "map val ?d = (map val (data c))[nat i := v]" by (simp add: map_update)
  have "Put nan k v c w = Some (None, c', w)" using nz k d c'(1) by (simp add: Put_def)
  moreover have "cache_inv nan c'" using inv c' mk by (simp add: cache_inv_def index_ok_def)
  ultimately show ?thesis using c' mk mv by simp
qed

lemma Put_insert:
  assumes inv: "cache_inv nan c" and nz: "cap c \<noteq> 0" and k: "map_lookup nan (keys c) k = None"
    and room: "len c < int (length (data c))"
  shows "\<exists>c'. Put nan k v c w = Some (None, c', w) \<and> cache_inv nan c' \<and>
    keys c' = keys c @ [(k, len c)] \<and> len c' = len c + 1 \<and> cap c' = cap c \<and>
    evict c' = evict c \<and> tail c' = tail c \<and> head c' = len c \<and>
    map key (data c') = (map key (data c))[nat (len c) := k] \<and>
    map val (data c') = (map val (data c))[nat (len c) := v] \<and>
    map next (data c') = (map next (data c))[nat (len c) := head c] \<and>
    map last' (data c') = (map last' (data c))[nat (len c) := 0, nat (head c) := len c]"
proof -
  let ?m = "int (length (data c))"
  let ?n = "\<lparr>next = head c, last' = 0, key = k, val = v\<rparr>"
  have L: "links_ok c" and X: "index_rel nan (map_lookup nan (keys c)) (len c) (map key (data c))"
    using inv by (simp_all add: cache_inv_def index_ok_def)
  have H: "in_range (head c) (data c)" and T: "in_range (tail c) (data c)"
    and A: "list_all (node_ok ?m) (data c)"
    and len: "unat (cap c) = length (data c)" "0 \<le> len c" "len c \<le> ?m"
    using L nz by (simp_all add: links_ok_def)
  have lt: "uint64 (len c) < cap c"
    using uint64_less[of "len c" "cap c"] len room by simp
  have I: "in_range (len c) (data c)" using len room by (simp add: in_range_def)
  let ?d1 = "(data c)[nat (len c) := ?n]"
  let ?d2 = "?d1[nat (head c) := (?d1 ! nat (head c))\<lparr>last' := len c\<rparr>]"
  have d1: "modify_at (len c) (\<lambda>_. ?n) (data c) = Some ?d1" using I by (rule modify_at_Some)
  have N: "node_ok ?m ?n" using H by (auto simp: node_ok_def in_range_def)
  have A1: "list_all (node_ok ?m) ?d1" using A N by (simp add: list_all_update)
  have H1: "in_range (head c) ?d1" using H by (simp add: in_range_def)
  have d2: "modify_at (head c) (\<lambda>n. n\<lparr>last' := len c\<rparr>) ?d1 = Some ?d2"
    using H1 by (rule modify_at_Some)
  have "node_ok ?m (?d1 ! nat (head c))" using H1 A1 by (rule in_range_nth)
  then have "node_ok ?m ((?d1 ! nat (head c))\<lparr>last' := len c\<rparr>)"
    using I by (simp add: node_ok_def in_range_def)
  then have A2: "list_all (node_ok ?m) ?d2" using A1 by (simp add: list_all_update)
  have "map key ?d2 = map key ?d1" by (rule map_update_same) simp
  then have mk: "map key ?d2 = (map key (data c))[nat (len c) := k]"
    by (simp add: map_update)
  have "map val ?d2 = map val ?d1" by (rule map_update_same) simp
  then have mv: "map val ?d2 = (map val (data c))[nat (len c) := v]"
    by (simp add: map_update)
  have "map next ?d2 = map next ?d1" by (rule map_update_same) simp
  then have mn: "map next ?d2 = (map next (data c))[nat (len c) := head c]"
    by (simp add: map_update)
  have hl: "nat (head c) < length (data c)" using H by (simp add: in_range_def nat_less_iff)
  have ml: "map last' ?d2 = (map last' (data c))[nat (len c) := 0, nat (head c) := len c]"
    by (simp add: map_update)
  let ?c' = "c\<lparr>data := ?d2, head := len c, keys := map_assign nan (keys c) k (len c),
               len := len c + 1\<rparr>"
  have "Put nan k v c w = Some (None, ?c', w)"
    using nz k lt d1 d2 by (simp add: Put_def)
  moreover have "links_ok ?c'"
    using len room T I A2 by (simp add: links_ok_def in_range_def)
  moreover have "index_rel nan (map_lookup nan (map_assign nan (keys c) k (len c)))
      (len c + 1) ((map key (data c))[nat (len c) := k])"
    using X len(2) _ k
  proof (rule index_rel_insert)
    show "nat (len c) < length (map key (data c))" using room len by simp
    show "map_lookup nan (map_assign nan (keys c) k (len c)) k' =
        (if go_eq nan k k' then Some (len c) else map_lookup nan (keys c) k')" for k'
      using k by (rule map_lookup_assign_absent)
  qed
  then have "index_ok nan ?c'" using mk by (simp add: index_ok_def)
  moreover have "map_assign nan (keys c) k (len c) = keys c @ [(k, len c)]"
    using k by (rule map_assign_absent)
  ultimately show ?thesis using mk mv mn ml by (simp add: cache_inv_def)
qed

lemma Put_evict:
  assumes inv: "cache_inv nan c" and nz: "cap c \<noteq> 0" and k: "map_lookup nan (keys c) k = None"
    and full: "len c = int (length (data c))"
  shows "\<exists>c'. Put nan k v c w =
      Some (fst (case evict c of None \<Rightarrow> (None, w)
                 | Some f \<Rightarrow> f (key (data c ! nat (tail c))) (val (data c ! nat (tail c))) w),
            c',
            snd (case evict c of None \<Rightarrow> (None, w)
                 | Some f \<Rightarrow> f (key (data c ! nat (tail c))) (val (data c ! nat (tail c))) w)) \<and>
    cache_inv nan c' \<and>
    keys c' = map_delete nan (keys c) (key (data c ! nat (tail c))) @ [(k, tail c)] \<and>
    len c' = len c \<and> cap c' = cap c \<and> evict c' = evict c \<and> head c' = tail c \<and>
    map key (data c') = (map key (data c))[nat (tail c) := k] \<and>
    map val (data c') = (map val (data c))[nat (tail c) := v] \<and>
    promote (tail c)
      (c\<lparr>keys := map_delete nan (keys c) (key (data c ! nat (tail c))) @ [(k, tail c)],
         data := (data c)[nat (tail c) := (data c ! nat (tail c))\<lparr>key := k, val := v\<rparr>]\<rparr>) =
      Some c'"
proof -
  let ?m = "int (length (data c))"
  let ?t = "nat (tail c)"
  let ?vic = "data c ! ?t"
  let ?r = "case evict c of None \<Rightarrow> (None, w) | Some f \<Rightarrow> f (key ?vic) (val ?vic) w"
  have L: "links_ok c" and X: "index_rel nan (map_lookup nan (keys c)) (len c) (map key (data c))"
    using inv by (simp_all add: cache_inv_def index_ok_def)
  have H: "in_range (head c) (data c)" and T: "in_range (tail c) (data c)"
    and A: "list_all (node_ok ?m) (data c)"
    and len: "unat (cap c) = length (data c)" "0 \<le> len c" "len c \<le> ?m"
    using L nz by (simp_all add: links_ok_def)
  have nlt: "\<not> uint64 (len c) < cap c"
    using uint64_less[of "len c" "cap c"] len full by simp
  have tl: "?t < length (data c)" "0 \<le> tail c" "tail c < len c"
    using T full by (auto simp: in_range_def)
  let ?del = "map_delete nan (keys c) (key ?vic)"
  have kd: "map_lookup nan ?del k = None" using k by (simp add: map_lookup_delete)
  have ks: "map_assign nan ?del k (tail c) = ?del @ [(k, tail c)]"
    using kd by (rule map_assign_absent)
  let ?ks = "?del @ [(k, tail c)]"
  let ?d = "(data c)[?t := ?vic\<lparr>key := k, val := v\<rparr>]"
  let ?c0 = "c\<lparr>keys := ?ks, data := ?d\<rparr>"
  have V: "node_ok ?m ?vic" using T A by (rule in_range_nth)
  have L0: "links_ok ?c0"
    using L V by (simp add: links_ok_def in_range_def list_all_update node_ok_def)
  have T0: "in_range (tail c) (data ?c0)" using T by (simp add: in_range_def)
  from promote_ok[OF L0 T0] obtain c' where c': "promote (tail c) ?c0 = Some c'" "links_ok c'"
    "keys c' = ?ks" "len c' = len c" "cap c' = cap c" "evict c' = evict c"
    "map key (data c') = map key ?d" "map val (data c') = map val ?d" "head c' = tail c"
    by auto
  have "Put nan k v c w = Some (fst ?r, c', snd ?r)"
    using nz k nlt T c'(1) ks by (simp add: Put_def Let_def case_prod_unfold)
  moreover have "index_rel nan (map_lookup nan ?ks) (len c) ((map key (data c))[?t := k])"
    using X tl(2,3) _ k
  proof (rule index_rel_replace)
    show "len c \<le> int (length (map key (data c)))" using full by simp
    show "map_lookup nan ?ks k' =
        (if go_eq nan k k' then Some (tail c)
         else if go_eq nan (map key (data c) ! nat (tail c)) k' then None
         else map_lookup nan (keys c) k')" for k'
      using map_lookup_assign_absent[OF kd, of "tail c" k'] tl(1)
      by (simp add: ks map_lookup_delete)
  qed
  then have "cache_inv nan c'" using c' by (simp add: cache_inv_def index_ok_def map_update)
  ultimately show ?thesis using c' by (simp add: map_update)
qed

lemma slice_to_Some:
  "0 \<le> n \<Longrightarrow> n \<le> int (length xs) \<Longrightarrow> slice_to n xs = Some (take (nat n) xs)"
  by (simp add: slice_to_def)

lemma Clear_eq:
  assumes "0 \<le> len c" "len c \<le> int (length (data c))"
  shows "Clear c w =
    Some (fst (case evict c of None \<Rightarrow> (None, w)
               | Some f \<Rightarrow> evict_each f (take (nat (len c)) (data c)) None w),
          c\<lparr>data := replicate (nat (len c)) zero_node @ drop (nat (len c)) (data c),
            keys := [], len := 0\<rparr>,
          snd (case evict c of None \<Rightarrow> (None, w)
               | Some f \<Rightarrow> evict_each f (take (nat (len c)) (data c)) None w))"
proof -
  have m: "min (length (data c)) (nat (len c)) = nat (len c)" using assms by auto
  show ?thesis
    using assms by (cases "evict c") (simp_all add: Clear_def slice_to_Some m case_prod_unfold)
qed

lemma Clear_ok:
  assumes L: "links_ok c"
  shows "\<exists>e c' w'. Clear c w = Some (e, c', w') \<and> cache_inv nan c' \<and> len c' = 0 \<and>
    keys c' = [] \<and> cap c' = cap c \<and> evict c' = evict c"
proof -
  let ?m = "int (length (data c))"
  let ?d = "replicate (nat (len c)) zero_node @ drop (nat (len c)) (data c)"
  let ?c' = "c\<lparr>data := ?d, keys := [], len := 0\<rparr>"
  have len: "unat (cap c) = length (data c)" "0 \<le> len c" "len c \<le> ?m"
    and A: "list_all (node_ok ?m) (data c)"
    and HT: "cap c \<noteq> 0 \<longrightarrow> in_range (head c) (data c) \<and> in_range (tail c) (data c)"
    using L by (simp_all add: links_ok_def)
  have ld: "length ?d = length (data c)" using len by auto
  have "list_all (node_ok ?m) (drop (nat (len c)) (data c))"
    using A by (auto simp: list_all_iff dest: in_set_dropD)
  moreover have "list_all (node_ok ?m) (replicate (nat (len c)) zero_node)"
    using len by (auto simp: list_all_iff node_ok_def zero_node_def)
  ultimately have "list_all (node_ok ?m) ?d" by simp
  then have "links_ok ?c'" using len HT ld by (simp add: links_ok_def in_range_def)
  then have "cache_inv nan ?c'" by (simp add: cache_inv_def index_ok_def index_rel_empty)
  then show ?thesis using Clear_eq[OF len(2,3), of w] by simp
qed

lemma All_eq:
  assumes "0 \<le> len c" "len c \<le> int (length (data c))"
  shows "All' c yield s = Some (range_yield (\<lambda>n. yield (key n) (val n)) (take (nat (len c)) (data c)) s)"
  using assms by (simp add: All'_def slice_to_Some)

lemma Keys_eq:
  assumes "0 \<le> len c" "len c \<le> int (length (data c))"
  shows "Keys c yield s = Some (range_yield (\<lambda>n. yield (key n)) (take (nat (len c)) (data c)) s)"
  using assms by (simp add: Keys_def slice_to_Some)

lemma Values_eq:
  assumes "0 \<le> len c" "len c \<le> int (length (data c))"
  shows "Values c yield s = Some (range_yield (\<lambda>n. yield (val n)) (take (nat (len c)) (data c)) s)"
  using assms by (simp add: Values_def slice_to_Some)

lemma Put_ok:
  assumes inv: "cache_inv nan c"
  shows "\<exists>e c' w'. Put nan k v c w = Some (e, c', w') \<and> cache_inv nan c' \<and> cap c' = cap c"
proof (cases "cap c = 0")
  case True
  then show ?thesis using inv by (simp add: Put_def)
next
  case nz: False
  show ?thesis
  proof (cases "map_lookup nan (keys c) k")
    case (Some i)
    then show ?thesis using Put_present[OF inv Some, of v w] by blast
  next
    case None
    have "len c \<le> int (length (data c))" using inv by (simp add: cache_inv_def links_ok_def)
    then consider "len c < int (length (data c))" | "len c = int (length (data c))" by linarith
    then show ?thesis
    proof cases
      case 1 then show ?thesis using Put_insert[OF inv nz None 1, of v w] by blast
    next
      case 2 then show ?thesis using Put_evict[OF inv nz None 2, of v w] by blast
    qed
  qed
qed

lemma Get_ok:
  assumes inv: "cache_inv nan c"
  shows "\<exists>r c'. Get nan k c = Some (r, c') \<and> cache_inv nan c' \<and> cap c' = cap c"
proof (cases "map_lookup nan (keys c) k")
  case None then show ?thesis using inv Get_miss[OF None] by blast
next
  case (Some i) then show ?thesis using Get_hit[OF inv Some] by blast
qed

lemma step_ok:
  assumes inv: "cache_inv nan c"
  shows "\<exists>r c' w'. step nan x c w = Some (r, c', w') \<and> cache_inv nan c' \<and> cap c' = cap c"
proof -
  have len: "0 \<le> len c" "len c \<le> int (length (data c))" and L: "links_ok c"
    using inv by (simp_all add: cache_inv_def links_ok_def)
  show ?thesis
  proof (cases x)
    case (OpGet k)
    from Get_ok[OF inv, of k] obtain r c' where
      "Get nan k c = Some (r, c')" "cache_inv nan c'" "cap c' = cap c" by blast
    then show ?thesis using OpGet by (cases r) simp
  next
    case (OpPut k v)
    from Put_ok[OF inv, of k v w] obtain e c' w' where
      "Put nan k v c w = Some (e, c', w')" "cache_inv nan c'" "cap c' = cap c"
      by blast
    then show ?thesis using OpPut by simp
  next
    case OpClear
    from Clear_ok[OF L, of w nan] obtain e c' w' where
      "Clear c w = Some (e, c', w')" "cache_inv nan c'" "cap c' = cap c"
      by blast
    then show ?thesis using OpClear by simp
  next
    case (OpAll stop) then show ?thesis using inv by (simp add: All_eq[OF len])
  next
    case (OpKeys stop) then show ?thesis using inv by (simp add: Keys_eq[OF len])
  next
    case (OpValues stop) then show ?thesis using inv by (simp add: Values_eq[OF len])
  qed
qed

lemma run_ok:
  "cache_inv nan c \<Longrightarrow>
     \<exists>rs c' w'. run nan xs c w = Some (rs, c', w') \<and> cache_inv nan c' \<and> cap c' = cap c"
proof (induction xs arbitrary: c w)
  case Nil
  then show ?case by simp
next
  case (Cons x xs)
  from step_ok[OF Cons.prems, of x w] obtain r c1 w1 where
    s: "step nan x c w = Some (r, c1, w1)" "cache_inv nan c1" "cap c1 = cap c" by blast
  from Cons.IH[OF s(2), of w1] obtain rs c' w' where
    "run nan xs c1 w1 = Some (rs, c', w')" "cache_inv nan c'" "cap c' = cap c1" by blast
  then show ?case using s(1,3) by simp
qed

subsection \<open>Runs whose keys are equal to themselves\<close>

lemma no_nan_iff:
  "no_nan nan c \<longleftrightarrow>
     (\<forall>e \<in> set (keys c). \<not> nan (fst e)) \<and> distinct (map fst (keys c)) \<and>
     (\<forall>j. j < nat (len c) \<and> j < length (data c) \<longrightarrow> \<not> nan (map key (data c) ! j))"
proof -
  have "list_all (\<lambda>n. \<not> nan (key n)) (take (nat (len c)) (data c)) \<longleftrightarrow>
      (\<forall>j. j < nat (len c) \<and> j < length (data c) \<longrightarrow> \<not> nan (map key (data c) ! j))"
    by (auto simp: list_all_length)
  moreover have "list_all (\<lambda>e. \<not> nan (fst e)) (keys c) \<longleftrightarrow> (\<forall>e \<in> set (keys c). \<not> nan (fst e))"
    by (simp add: list_all_iff)
  ultimately show ?thesis by (simp add: no_nan_def)
qed

lemma no_nan_New: "no_nan nan (New cp ev)"
  by (simp add: no_nan_iff New_def)

lemma no_nan_same:
  assumes "no_nan nan c" and "keys c' = keys c" and "len c' = len c"
    and "map key (data c') = map key (data c)"
  shows "no_nan nan c'"
proof -
  have "length (map key (data c')) = length (map key (data c))" using assms(4) by (rule arg_cong)
  then have "length (data c') = length (data c)" by simp
  then show ?thesis using assms by (simp add: no_nan_iff)
qed

lemma no_nan_append:
  assumes "\<forall>e \<in> set m. \<not> nan (fst e)" and "distinct (map fst m)" and "\<not> nan k"
    and "map_lookup nan m k = None"
  shows "(\<forall>e \<in> set (m @ [(k, i)]). \<not> nan (fst e)) \<and> distinct (map fst (m @ [(k, i)]))"
  using assms map_lookup_None_notin[where nan=nan and k=k and m=m] by auto

lemma no_nan_delete:
  assumes "\<forall>e \<in> set m. \<not> nan (fst e)" and "distinct (map fst m)"
  shows "(\<forall>e \<in> set (map_delete nan m k). \<not> nan (fst e)) \<and>
         distinct (map fst (map_delete nan m k))"
  using assms by (simp add: map_delete_def distinct_map_filter)

lemma Put_no_nan:
  assumes inv: "cache_inv nan c" and nn: "no_nan nan c" and k: "\<not> nan k"
    and p: "Put nan k v c w = Some (e, c', w')"
  shows "no_nan nan c'"
proof (cases "cap c = 0")
  case True
  then show ?thesis using p nn by (simp add: Put_def)
next
  case nz: False
  have A: "\<forall>e \<in> set (keys c). \<not> nan (fst e)" "distinct (map fst (keys c))"
    and S: "\<And>j. j < nat (len c) \<Longrightarrow> j < length (data c) \<Longrightarrow> \<not> nan (map key (data c) ! j)"
    using nn by (simp_all add: no_nan_iff)
  show ?thesis
  proof (cases "map_lookup nan (keys c) k")
    case (Some i)
    from Put_present[OF inv Some, of v w] p show ?thesis
      using nn by (auto intro: no_nan_same)
  next
    case None
    have "len c \<le> int (length (data c))" using inv by (simp add: cache_inv_def links_ok_def)
    then consider "len c < int (length (data c))" | "len c = int (length (data c))" by linarith
    then show ?thesis
    proof cases
      case 1
      from Put_insert[OF inv nz None 1, of v w] p have
        c': "keys c' = keys c @ [(k, len c)]" "len c' = len c + 1"
        "map key (data c') = (map key (data c))[nat (len c) := k]"
        by auto
      have "length (map key (data c')) = length ((map key (data c))[nat (len c) := k])"
        using c'(3) by (rule arg_cong)
      then have l: "length (data c') = length (data c)" by simp
      have "\<not> nan (map key (data c') ! j)" if "j < nat (len c')" "j < length (data c')" for j
        using that S[of j] k l unfolding c'(2,3) by (cases "j = nat (len c)") auto
      then show ?thesis
        using no_nan_append[where nan=nan and m="keys c" and k=k and i="len c"] A k None c'(1)
        by (simp add: no_nan_iff)
    next
      case 2
      let ?vk = "key (data c ! nat (tail c))"
      from Put_evict[OF inv nz None 2, of v w] p have
        c': "keys c' = map_delete nan (keys c) ?vk @ [(k, tail c)]" "len c' = len c"
        "map key (data c') = (map key (data c))[nat (tail c) := k]"
        by auto
      have "length (map key (data c')) = length ((map key (data c))[nat (tail c) := k])"
        using c'(3) by (rule arg_cong)
      then have l: "length (data c') = length (data c)" by simp
      have "\<not> nan (map key (data c') ! j)" if "j < nat (len c')" "j < length (data c')" for j
        using that S[of j] k l unfolding c'(2,3) by (cases "j = nat (tail c)") auto
      moreover have "map_lookup nan (map_delete nan (keys c) ?vk) k = None"
        using None by (simp add: map_lookup_delete)
      ultimately show ?thesis
        using no_nan_append[where nan=nan and m="map_delete nan (keys c) ?vk" and k=k
            and i="tail c"]
          no_nan_delete[where nan=nan and m="keys c" and k="?vk"] A k c'(1)
        by (simp add: no_nan_iff)
    qed
  qed
qed

lemma Get_no_nan:
  assumes inv: "cache_inv nan c" and nn: "no_nan nan c" and g: "Get nan k c = Some (r, c')"
  shows "no_nan nan c'"
proof (cases "map_lookup nan (keys c) k")
  case None
  then show ?thesis using g nn by (simp add: Get_miss)
next
  case (Some i)
  from Get_hit[OF inv Some] g show ?thesis using nn by (auto intro: no_nan_same)
qed

lemma Clear_no_nan:
  assumes "Clear c w = Some (e, c', w')"
  shows "no_nan nan c'"
  using assms by (auto simp: Clear_def no_nan_iff split: bind_splits option.splits)

lemma step_no_nan:
  assumes inv: "cache_inv nan c" and nn: "no_nan nan c"
    and k: "list_all (\<lambda>k. \<not> nan k) (put_keys [x])"
    and s: "step nan x c w = Some (r, c', w')"
  shows "no_nan nan c'"
proof (cases x)
  case (OpGet k)
  then show ?thesis using s Get_no_nan[OF inv nn] by (auto split: bind_splits)
next
  case (OpPut k v)
  then show ?thesis using s k Put_no_nan[OF inv nn] by (auto split: bind_splits)
next
  case OpClear
  then show ?thesis using s Clear_no_nan by (auto split: bind_splits)
next
  case (OpAll stop) then show ?thesis using s nn by (auto split: bind_splits)
next
  case (OpKeys stop) then show ?thesis using s nn by (auto split: bind_splits)
next
  case (OpValues stop) then show ?thesis using s nn by (auto split: bind_splits)
qed

lemma put_keys_Cons:
  "list_all P (put_keys (x # xs)) \<longleftrightarrow> list_all P (put_keys [x]) \<and> list_all P (put_keys xs)"
  by (cases x) simp_all

lemma run_no_nan:
  assumes "cache_inv nan c" and "no_nan nan c" and "list_all (\<lambda>k. \<not> nan k) (put_keys xs)"
  shows "\<exists>rs c' w'. run nan xs c w = Some (rs, c', w') \<and> cache_inv nan c' \<and> no_nan nan c' \<and>
    cap c' = cap c"
  using assms
proof (induction xs arbitrary: c w)
  case Nil
  then show ?case by simp
next
  case (Cons x xs)
  have kx: "list_all (\<lambda>k. \<not> nan k) (put_keys [x])" and kxs: "list_all (\<lambda>k. \<not> nan k) (put_keys xs)"
    using Cons.prems(3) put_keys_Cons[of "\<lambda>k. \<not> nan k" x xs] by simp_all
  from step_ok[OF Cons.prems(1), of x w] obtain r c1 w1 where
    s: "step nan x c w = Some (r, c1, w1)" "cache_inv nan c1" "cap c1 = cap c" by blast
  have n1: "no_nan nan c1" using Cons.prems(1,2) kx s(1) by (rule step_no_nan)
  from Cons.IH[OF s(2) n1 kxs, of w1] obtain rs c' w' where
    "run nan xs c1 w1 = Some (rs, c', w')" "cache_inv nan c'" "no_nan nan c'" "cap c' = cap c1"
    by blast
  then show ?case using s(1,3) by simp
qed

lemma no_nan_lookup:
  assumes "no_nan nan c" and "(k, i) \<in> set (keys c)"
  shows "map_lookup nan (keys c) k = Some i"
proof -
  have A: "\<not> nan k" "distinct (map fst (keys c))" using assms by (auto simp: no_nan_iff)
  have "k \<in> fst ` set (keys c)" using assms(2) by force
  then have "map_lookup nan (keys c) k \<noteq> None"
    using map_lookup_None_notin[where nan=nan and k=k and m="keys c"] A(1) by blast
  then obtain i' where i': "map_lookup nan (keys c) k = Some i'" by auto
  then have "(k, i') \<in> set (keys c)" by (rule map_lookup_Some)
  then have "i' = i" using assms(2) A(2) by (rule eq_key_imp_eq_value[rotated 1])
  then show ?thesis using i' by simp
qed

lemma no_nan_length:
  assumes inv: "cache_inv nan c" and nn: "no_nan nan c"
  shows "length (keys c) = nat (len c)"
proof -
  have A: "\<forall>e \<in> set (keys c). \<not> nan (fst e)" "distinct (map fst (keys c))"
    and S: "\<And>j. j < nat (len c) \<Longrightarrow> j < length (data c) \<Longrightarrow> \<not> nan (map key (data c) ! j)"
    using nn by (simp_all add: no_nan_iff)
  have len: "0 \<le> len c" "len c \<le> int (length (data c))"
    using inv by (simp_all add: cache_inv_def links_ok_def)
  have X: "index_rel nan (map_lookup nan (keys c)) (len c) (map key (data c))"
    using inv by (simp add: cache_inv_def index_ok_def)
  have "card (dom (map_lookup nan (keys c))) = nat (len c)"
    using X len(1)
  proof (rule index_rel_card)
    fix j assume "j < nat (len c)"
    then show "\<not> nan (map key (data c) ! j)" using S[of j] len by auto
  qed
  moreover have "dom (map_lookup nan (keys c)) = set (map fst (keys c))"
  proof (intro set_eqI iffI)
    fix k assume "k \<in> dom (map_lookup nan (keys c))"
    then obtain i where "map_lookup nan (keys c) k = Some i" by auto
    then have "(k, i) \<in> set (keys c)" by (rule map_lookup_Some)
    then show "k \<in> set (map fst (keys c))" by force
  next
    fix k assume "k \<in> set (map fst (keys c))"
    then obtain i where "(k, i) \<in> set (keys c)" by auto
    then have "map_lookup nan (keys c) k = Some i" using nn by (intro no_nan_lookup)
    then show "k \<in> dom (map_lookup nan (keys c))" by auto
  qed
  ultimately have "card (set (map fst (keys c))) = nat (len c)" by simp
  then show ?thesis using distinct_card[OF A(2)] by simp
qed

section \<open>The recency list\<close>

subsection \<open>What promote does to the links\<close>

lemma promote_links:
  assumes L: "links_ok c" and I: "in_range i (data c)" and P: "promote i c = Some c'"
  shows "head c' = i" and "len c' = len c" and "length (data c') = length (data c)"
    and "i = head c \<Longrightarrow> c' = c"
    and "i \<noteq> head c \<Longrightarrow> i = tail c \<Longrightarrow>
      tail c' = last' (data c ! nat i) \<and>
      map next (data c') = (map next (data c))[nat i := head c] \<and>
      map last' (data c') = (map last' (data c))[nat (head c) := i]"
    and "i \<noteq> head c \<Longrightarrow> i \<noteq> tail c \<Longrightarrow>
      tail c' = tail c \<and>
      map next (data c') =
        (map next (data c))[nat (last' (data c ! nat i)) := next (data c ! nat i),
                            nat i := head c] \<and>
      map last' (data c') =
        (map last' (data c))[nat (next (data c ! nat i)) := last' (data c ! nat i),
                             nat (head c) := i]"
proof -
  let ?m = "int (length (data c))"
  let ?p = "data c ! nat i"
  have nz: "cap c \<noteq> 0" using L I by (rule links_ok_nonempty)
  have H: "in_range (head c) (data c)" and A: "list_all (node_ok ?m) (data c)"
    using L nz by (simp_all add: links_ok_def)
  have N: "node_ok ?m ?p" using I A by (rule in_range_nth)
  have b: "0 \<le> i" "nat i < length (data c)" "0 \<le> head c" "nat (head c) < length (data c)"
    "0 \<le> last' ?p" "nat (last' ?p) < length (data c)"
    "0 \<le> next ?p" "nat (next ?p) < length (data c)"
    using I H N by (auto simp: in_range_def node_ok_def)
  show "i = head c \<Longrightarrow> c' = c" using P I by (simp add: promote_def)
  have r1: "i \<noteq> head c \<Longrightarrow> i = tail c \<Longrightarrow>
      c' = c\<lparr>tail := last' ?p,
            data := ((data c)[nat i := ?p\<lparr>next := head c\<rparr>])
                      [nat (head c) := ((data c)[nat i := ?p\<lparr>next := head c\<rparr>] ! nat (head c))
                                         \<lparr>last' := i\<rparr>],
            head := i\<rparr>"
    using P I H by (simp add: promote_def modify_at_def in_range_def)
  let ?d1 = "(data c)[nat (last' ?p) := (data c ! nat (last' ?p))\<lparr>next := next ?p\<rparr>]"
  have e1: "next (?d1 ! nat i) = next ?p" "last' (?d1 ! nat i) = last' ?p"
    using b by (simp_all add: nth_list_update)
  let ?d2 = "?d1[nat (next ?p) := (?d1 ! nat (next ?p))\<lparr>last' := last' ?p\<rparr>]"
  let ?d3 = "?d2[nat i := (?d2 ! nat i)\<lparr>next := head c\<rparr>]"
  let ?d4 = "?d3[nat (head c) := (?d3 ! nat (head c))\<lparr>last' := i\<rparr>]"
  have m1: "modify_at (last' ?p) (\<lambda>n. n\<lparr>next := next ?p\<rparr>) (data c) = Some ?d1"
    by (rule modify_at_Some) (use N in \<open>simp add: in_range_def node_ok_def\<close>)
  have m2: "modify_at (next ?p) (\<lambda>n. n\<lparr>last' := last' ?p\<rparr>) ?d1 = Some ?d2"
    by (rule modify_at_Some) (use N in \<open>simp add: in_range_def node_ok_def\<close>)
  have m3: "modify_at i (\<lambda>n. n\<lparr>next := head c\<rparr>) ?d2 = Some ?d3"
    by (rule modify_at_Some) (use I in \<open>simp add: in_range_def\<close>)
  have m4: "modify_at (head c) (\<lambda>n. n\<lparr>last' := i\<rparr>) ?d3 = Some ?d4"
    by (rule modify_at_Some) (use H in \<open>simp add: in_range_def\<close>)
  have r2: "i \<noteq> head c \<Longrightarrow> i \<noteq> tail c \<Longrightarrow> c' = c\<lparr>data := ?d4, head := i\<rparr>"
    using P I by (simp add: promote_def m1 e1 m2 m3 m4)
  show "head c' = i" using r1 r2 P I by (cases "i = head c"; cases "i = tail c") (auto simp: promote_def)
  show "len c' = len c" using r1 r2 P I by (cases "i = head c"; cases "i = tail c") (auto simp: promote_def)
  show "length (data c') = length (data c)"
    using r1 r2 P I by (cases "i = head c"; cases "i = tail c") (auto simp: promote_def)
  show "tail c' = last' (data c ! nat i) \<and>
      map next (data c') = (map next (data c))[nat i := head c] \<and>
      map last' (data c') = (map last' (data c))[nat (head c) := i]"
    if "i \<noteq> head c" "i = tail c"
  proof -
    let ?e3 = "(data c)[nat i := ?p\<lparr>next := head c\<rparr>]"
    have c': "c' = c\<lparr>tail := last' ?p,
        data := ?e3[nat (head c) := (?e3 ! nat (head c))\<lparr>last' := i\<rparr>], head := i\<rparr>"
      using r1 that by simp
    have "map next (?e3[nat (head c) := (?e3 ! nat (head c))\<lparr>last' := i\<rparr>]) = map next ?e3"
      by (rule map_update_same) simp
    then have n: "map next (data c') = (map next (data c))[nat i := head c]"
      unfolding c' by (simp add: map_update)
    have "map last' ?e3 = map last' (data c)" by (rule map_update_same) simp
    then have l: "map last' (data c') = (map last' (data c))[nat (head c) := i]"
      unfolding c' by (simp add: map_update)
    show ?thesis using n l unfolding c' by simp
  qed
  show "tail c' = tail c \<and>
      map next (data c') =
        (map next (data c))[nat (last' (data c ! nat i)) := next (data c ! nat i),
                            nat i := head c] \<and>
      map last' (data c') =
        (map last' (data c))[nat (next (data c ! nat i)) := last' (data c ! nat i),
                             nat (head c) := i]"
    if "i \<noteq> head c" "i \<noteq> tail c"
  proof -
    have c': "c' = c\<lparr>data := ?d4, head := i\<rparr>" using r2 that by simp
    have n1: "map next ?d1 = (map next (data c))[nat (last' ?p) := next ?p]"
      by (simp add: map_update)
    have n2: "map next ?d2 = map next ?d1" by (rule map_update_same) simp
    have n3: "map next ?d3 = (map next ?d2)[nat i := head c]" by (simp add: map_update)
    have n4: "map next ?d4 = map next ?d3" by (rule map_update_same) simp
    have l1: "map last' ?d1 = map last' (data c)" by (rule map_update_same) simp
    have l2: "map last' ?d2 = (map last' ?d1)[nat (next ?p) := last' ?p]"
      by (simp add: map_update)
    have l3: "map last' ?d3 = map last' ?d2" by (rule map_update_same) simp
    have l4: "map last' ?d4 = (map last' ?d3)[nat (head c) := i]" by (simp add: map_update)
    have "map next (data c') =
        (map next (data c))[nat (last' ?p) := next ?p, nat i := head c]"
      unfolding c' using n1 n2 n3 n4 by simp
    moreover have "map last' (data c') =
        (map last' (data c))[nat (next ?p) := last' ?p, nat (head c) := i]"
      unfolding c' using l1 l2 l3 l4 by simp
    ultimately show ?thesis unfolding c' by simp
  qed
qed

subsection \<open>Linked lists in the slot array\<close>

lemma linked_Cons:
  "linked nx ls (x # xs) \<longleftrightarrow>
     xs = [] \<or> (nx ! nat x = hd xs \<and> ls ! nat (hd xs) = x) \<and> linked nx ls xs"
  by (simp add: linked_def successively_Cons)

lemma linked_append:
  "linked nx ls (xs @ ys) \<longleftrightarrow>
     linked nx ls xs \<and> linked nx ls ys \<and>
     (xs = [] \<or> ys = [] \<or> nx ! nat (last xs) = hd ys \<and> ls ! nat (hd ys) = last xs)"
  by (simp add: linked_def successively_append_iff)

lemma linked_frame:
  assumes "linked nx ls xs"
    and "\<And>x. x \<in> set (butlast xs) \<Longrightarrow> nx' ! nat x = nx ! nat x"
    and "\<And>y. y \<in> set (tl xs) \<Longrightarrow> ls' ! nat y = ls ! nat y"
  shows "linked nx' ls' xs"
  using assms
proof (induction xs)
  case Nil
  then show ?case by (simp add: linked_def)
next
  case (Cons x xs)
  show ?case
  proof (cases xs)
    case Nil
    then show ?thesis by (simp add: linked_def)
  next
    case (Cons y ys)
    have 1: "nx' ! nat x = nx ! nat x" using Cons.prems(2)[of x] Cons by simp
    have 2: "ls' ! nat y = ls ! nat y" using Cons.prems(3)[of y] Cons by simp
    have 3: "linked nx' ls' xs"
    proof (rule Cons.IH)
      show "linked nx ls xs" using Cons.prems(1) Cons by (simp add: linked_Cons)
      show "nx' ! nat z = nx ! nat z" if "z \<in> set (butlast xs)" for z
        using that Cons.prems(2)[of z] Cons by simp
      show "ls' ! nat z = ls ! nat z" if "z \<in> set (tl xs)" for z
        using that Cons.prems(3)[of z] Cons by (auto dest: list.set_sel(2))
    qed
    show ?thesis using Cons.prems(1) Cons 1 2 3 by (simp add: linked_Cons)
  qed
qed

lemma dll_iff:
  assumes "len c \<le> int (length (data c))"
  shows "dll c xs \<longleftrightarrow>
     distinct xs \<and> set xs = {0..<len c} \<and>
     linked (map next (data c)) (map last' (data c)) xs \<and>
     (xs = [] \<and> tail c = 0 \<or> xs \<noteq> [] \<and> head c = hd xs \<and> tail c = last xs)"
proof (cases "set xs = {0..<len c}")
  case False
  then show ?thesis by (simp add: dll_def)
next
  case True
  have b: "nat x < length (data c)" if "x \<in> set xs" for x
    using that True assms by auto
  have "successively (\<lambda>x y. next (data c ! nat x) = y \<and> last' (data c ! nat y) = x) xs \<longleftrightarrow>
      successively (\<lambda>x y. map next (data c) ! nat x = y \<and> map last' (data c) ! nat y = x) xs"
    by (rule successively_cong) (simp_all add: b)
  then show ?thesis by (simp add: dll_def linked_def)
qed

lemma chain_linked:
  "linked (map next d) ls (x # xs) \<Longrightarrow> \<forall>y \<in> set (x # xs). nat y < length d \<Longrightarrow>
     chain d x (Suc (length xs)) = x # xs"
proof (induction xs arbitrary: x)
  case Nil
  then show ?case by simp
next
  case (Cons y ys)
  have "next (d ! nat x) = y" using Cons.prems by (simp add: linked_Cons)
  moreover have "chain d y (Suc (length ys)) = y # ys"
    using Cons.prems by (intro Cons.IH) (simp_all add: linked_Cons)
  ultimately show ?case by simp
qed

lemma dll_length:
  assumes "dll c xs"
  shows "length xs = nat (len c)"
proof -
  have "distinct xs" "set xs = {0..<len c}" using assms by (simp_all add: dll_def)
  then have "length xs = card {0..<len c}" using distinct_card[of xs] by simp
  then show ?thesis by simp
qed

lemma dll_recency:
  assumes D: "dll c xs" and l: "len c \<le> int (length (data c))"
  shows "recency c = xs"
proof (cases xs)
  case Nil
  then show ?thesis using dll_length[OF D] by (simp add: recency_def)
next
  case (Cons x ys)
  have s: "set xs = {0..<len c}" and h: "head c = x"
    and k: "linked (map next (data c)) (map last' (data c)) (x # ys)"
    using D Cons by (simp_all add: dll_iff[OF l])
  have b: "\<forall>y \<in> set (x # ys). nat y < length (data c)" using s l Cons by auto
  have "chain (data c) x (Suc (length ys)) = x # ys" using k b by (rule chain_linked)
  moreover have "nat (len c) = Suc (length ys)" using dll_length[OF D] Cons by simp
  ultimately show ?thesis using Cons h by (simp only: recency_def)
qed

lemma recency_okI: "dll c xs \<Longrightarrow> len c \<le> int (length (data c)) \<Longrightarrow> recency_ok c"
  using dll_recency[of c xs] by (simp add: recency_ok_def)

lemma dll_same:
  assumes "dll c xs" and "len c \<le> int (length (data c))"
    and "len c' = len c" "head c' = head c" "tail c' = tail c"
    and "map next (data c') = map next (data c)" "map last' (data c') = map last' (data c)"
  shows "dll c' xs"
proof -
  have "length (map next (data c')) = length (map next (data c))" using assms(6) by (rule arg_cong)
  then have "len c' \<le> int (length (data c'))" using assms(2,3) by simp
  then show ?thesis using assms by (simp add: dll_iff)
qed

subsection \<open>promote moves a slot to the front\<close>

lemma promote_dll:
  assumes L: "links_ok c" and D: "dll c xs" and i: "i \<in> set xs" and P: "promote i c = Some c'"
  shows "dll c' (i # remove1 i xs)"
proof -
  let ?nx = "map next (data c)" and ?ls = "map last' (data c)"
  let ?nx' = "map next (data c')" and ?ls' = "map last' (data c')"
  have l: "len c \<le> int (length (data c))" using L by (simp add: links_ok_def)
  have d: "distinct xs" and s: "set xs = {0..<len c}" and k: "linked ?nx ?ls xs"
    and ht: "head c = hd xs" "tail c = last xs"
    using D i by (auto simp: dll_iff[OF l])
  have b: "0 \<le> x \<and> nat x < length (data c)" if "x \<in> set xs" for x
    using that s l by auto
  have I: "in_range i (data c)" using b[OF i] by (auto simp: in_range_def)
  note pl = promote_links[OF L I P]
  have l': "len c' \<le> int (length (data c'))" using l pl(2,3) by simp
  have nzc: "cap c \<noteq> 0" using L I by (rule links_ok_nonempty)
  have hb: "0 \<le> head c \<and> nat (head c) < length (data c)"
    using L nzc by (simp add: links_ok_def in_range_def nat_less_iff)
  from i obtain as bs where xs: "xs = as @ i # bs" by (auto dest: split_list)
  have ni: "i \<notin> set as" "i \<notin> set bs" and dab: "distinct as" "distinct bs" "set as \<inter> set bs = {}"
    using d xs by auto
  have rm: "remove1 i xs = as @ bs" using ni xs by (simp add: remove1_append)
  have set': "set (i # as @ bs) = {0..<len c'}" using s xs pl(2) by auto
  have dis': "distinct (i # as @ bs)" using d xs by auto
  show ?thesis
  proof (cases "as = []")
    case True
    then have "i = head c" using ht xs by simp
    then have "c' = c" by (rule pl(4))
    then show ?thesis using D True xs by simp
  next
    case asn: False
    have h: "head c = hd as" using ht xs asn by simp
    have hin: "head c \<in> set as" using h asn by simp
    have ih: "i \<noteq> head c" using hin ni by auto
    have kas: "linked ?nx ?ls as" using k xs by (simp add: linked_append)
    have pi: "?nx ! nat (last as) = i" "?ls ! nat i = last as"
      using k xs asn by (simp_all add: linked_append)
    have lp: "last' (data c ! nat i) = last as" using pi(2) b[OF i] by simp
    have lin: "last as \<in> set as" using asn by simp
    have bl: "x \<noteq> last as" if "x \<in> set (butlast as)" for x
      using that dab(1) asn by (metis append_butlast_last_id distinct_append disjoint_iff
          list.set_intros(1) distinct.simps(2))
    have th: "y \<noteq> hd as" if "y \<in> set (tl as)" for y
      using that dab(1) asn by (metis distinct.simps(2) list.collapse)
    have nn: "(nat x = nat y) = (x = y)" if "x \<in> set xs" "y \<in> set xs" for x y
      using b[OF that(1)] b[OF that(2)] by auto
    have as_in: "x \<in> set xs" if "x \<in> set as" for x using that xs by simp
    have bs_in: "x \<in> set xs" if "x \<in> set bs" for x using that xs by simp
    show ?thesis
    proof (cases "bs = []")
      case True
      then have it: "i = tail c" using ht xs by simp
      from pl(5)[OF ih it] have t': "tail c' = last as"
        and nx': "?nx' = ?nx[nat i := head c]" and ls': "?ls' = ?ls[nat (head c) := i]"
        using lp by simp_all
      have kas': "linked ?nx' ?ls' as"
        using kas
      proof (rule linked_frame)
        fix x assume "x \<in> set (butlast as)"
        then have "x \<in> set as" by (rule in_set_butlastD)
        then have "nat x \<noteq> nat i" using nn[of x i] as_in i ni by auto
        then show "?nx' ! nat x = ?nx ! nat x" unfolding nx' by simp
      next
        fix y assume y: "y \<in> set (tl as)"
        then have "y \<in> set as" by (rule list.set_sel(2)[rotated]) (use asn in simp)
        then have "nat y \<noteq> nat (head c)" using nn[of y "head c"] as_in hin th[OF y] h by auto
        then show "?ls' ! nat y = ?ls ! nat y" unfolding ls' by simp
      qed
      have "?nx' ! nat i = hd as" unfolding nx' using b[OF i] h by simp
      moreover have "?ls' ! nat (hd as) = i" unfolding ls' using hb h by simp
      ultimately have "linked ?nx' ?ls' (i # as)" using kas' by (simp add: linked_Cons)
      then have "dll c' (i # as)"
        using dis' set' True t' pl(1) asn by (simp add: dll_iff[OF l'])
      then show ?thesis using rm True by simp
    next
      case bsn: False
      have it: "i \<noteq> tail c" using ht xs bsn ni by auto
      have si: "?nx ! nat i = hd bs" "?ls ! nat (hd bs) = i"
        using k xs bsn by (simp_all add: linked_append linked_Cons)
      have np: "next (data c ! nat i) = hd bs" using si(1) b[OF i] by simp
      have kbs: "linked ?nx ?ls bs" using k xs bsn by (simp add: linked_append linked_Cons)
      have sin: "hd bs \<in> set bs" using bsn by simp
      from pl(6)[OF ih it] have t': "tail c' = tail c"
        and nx': "?nx' = ?nx[nat (last as) := hd bs, nat i := head c]"
        and ls': "?ls' = ?ls[nat (hd bs) := last as, nat (head c) := i]"
        using lp np by simp_all
      have thb: "y \<noteq> hd bs" if "y \<in> set (tl bs)" for y
        using that dab(2) bsn by (metis distinct.simps(2) list.collapse)
      have kas': "linked ?nx' ?ls' as"
        using kas
      proof (rule linked_frame)
        fix x assume x: "x \<in> set (butlast as)"
        then have xa: "x \<in> set as" by (rule in_set_butlastD)
        have "nat x \<noteq> nat i" using nn[of x i] as_in xa i ni by auto
        moreover have "nat x \<noteq> nat (last as)" using nn[of x "last as"] as_in xa lin bl[OF x] by auto
        ultimately show "?nx' ! nat x = ?nx ! nat x" unfolding nx' by simp
      next
        fix y assume y: "y \<in> set (tl as)"
        then have ya: "y \<in> set as" by (rule list.set_sel(2)[rotated]) (use asn in simp)
        have "nat y \<noteq> nat (head c)" using nn[of y "head c"] as_in ya hin th[OF y] h by auto
        moreover have "nat y \<noteq> nat (hd bs)"
          using nn[of y "hd bs"] as_in bs_in ya sin dab(3) by auto
        ultimately show "?ls' ! nat y = ?ls ! nat y" unfolding ls' by simp
      qed
      have kbs': "linked ?nx' ?ls' bs"
        using kbs
      proof (rule linked_frame)
        fix x assume x: "x \<in> set (butlast bs)"
        then have xb: "x \<in> set bs" by (rule in_set_butlastD)
        have "nat x \<noteq> nat i" using nn[of x i] bs_in xb i ni by auto
        moreover have "nat x \<noteq> nat (last as)"
          using nn[of x "last as"] as_in bs_in xb lin dab(3) by auto
        ultimately show "?nx' ! nat x = ?nx ! nat x" unfolding nx' by simp
      next
        fix y assume y: "y \<in> set (tl bs)"
        then have yb: "y \<in> set bs" by (rule list.set_sel(2)[rotated]) (use bsn in simp)
        have "nat y \<noteq> nat (head c)" using nn[of y "head c"] as_in bs_in yb hin dab(3) by auto
        moreover have "nat y \<noteq> nat (hd bs)" using nn[of y "hd bs"] bs_in yb sin thb[OF y] by auto
        ultimately show "?ls' ! nat y = ?ls ! nat y" unfolding ls' by simp
      qed
      have j1: "?nx' ! nat (last as) = hd bs"
      proof -
        have "nat (last as) \<noteq> nat i" using nn[of "last as" i] as_in lin i ni by auto
        then show ?thesis unfolding nx' using b[OF as_in[OF lin]] by simp
      qed
      have j2: "?ls' ! nat (hd bs) = last as"
      proof -
        have "nat (hd bs) \<noteq> nat (head c)"
          using nn[of "hd bs" "head c"] as_in bs_in sin hin dab(3) by auto
        then show ?thesis unfolding ls' using b[OF bs_in[OF sin]] by simp
      qed
      have j3: "?nx' ! nat i = hd as" unfolding nx' using b[OF i] h by simp
      have j4: "?ls' ! nat (hd as) = i" unfolding ls' using hb h by simp
      have "linked ?nx' ?ls' (i # as @ bs)"
        using kas' kbs' j1 j2 j3 j4 asn bsn by (simp add: linked_Cons linked_append)
      moreover have "last (as @ bs) = last xs" using xs bsn by simp
      ultimately have "dll c' (i # as @ bs)"
        using dis' set' t' pl(1) ht(2) asn by (simp add: dll_iff[OF l'])
      then show ?thesis using rm by simp
    qed
  qed
qed

subsection \<open>The operations on a well-formed recency list\<close>

lemma links_ok_same:
  assumes "links_ok c" and "cap c' = cap c" "len c' = len c" "head c' = head c" "tail c' = tail c"
    and n: "map next (data c') = map next (data c)"
    and l: "map last' (data c') = map last' (data c)"
  shows "links_ok c'"
proof -
  have "length (map next (data c')) = length (map next (data c))" using n by (rule arg_cong)
  then have len: "length (data c') = length (data c)" by simp
  have "node_ok m (data c' ! j) = node_ok m (data c ! j)" if "j < length (data c)" for j m
  proof -
    have "map next (data c') ! j = map next (data c) ! j" using n by simp
    moreover have "map last' (data c') ! j = map last' (data c) ! j" using l by simp
    ultimately show ?thesis using that len by (simp add: node_ok_def)
  qed
  then show ?thesis using assms(1-5) len by (simp add: links_ok_def in_range_def list_all_length)
qed

lemma recency_set:
  assumes "recency_ok c"
  shows "set (recency c) = {0..<len c}" and "distinct (recency c)"
  using assms by (simp_all add: recency_ok_def dll_def)

lemma promote_recency:
  assumes L: "links_ok c" and R: "recency_ok c" and i: "0 \<le> i" "i < len c"
    and P: "promote i c = Some c'"
  shows "recency_ok c'" and "recency c' = i # remove1 i (recency c)"
    and "tail c' = last (recency c')"
proof -
  have D: "dll c (recency c)" using R by (simp add: recency_ok_def)
  have m: "i \<in> set (recency c)" using recency_set(1)[OF R] i by simp
  have D': "dll c' (i # remove1 i (recency c))" using L D m P by (rule promote_dll)
  have I: "in_range i (data c)" using L i by (simp add: links_ok_def in_range_def)
  have l': "len c' \<le> int (length (data c'))"
    using L promote_links(2,3)[OF L I P] by (simp add: links_ok_def)
  show "recency_ok c'" using D' l' by (rule recency_okI)
  show r: "recency c' = i # remove1 i (recency c)" using D' l' by (rule dll_recency)
  show "tail c' = last (recency c')" using D' unfolding r by (simp add: dll_def)
qed

lemma Put_present_recency:
  assumes inv: "cache_inv nan c" and k: "map_lookup nan (keys c) k = Some i"
    and R: "recency_ok c" and p: "Put nan k v c w = Some (e, c', w')"
  shows "recency_ok c'" and "recency c' = i # remove1 i (recency c)"
    and "tail c' = last (recency c')"
proof -
  let ?c0 = "c\<lparr>data := (data c)[nat i := (data c ! nat i)\<lparr>val := v\<rparr>]\<rparr>"
  from Put_present[OF inv k, of v w] p have P: "promote i ?c0 = Some c'" by auto
  have L: "links_ok c" using inv by (simp add: cache_inv_def)
  have n: "map next (data ?c0) = map next (data c)" by (simp add: map_update_same)
  have l: "map last' (data ?c0) = map last' (data c)" by (simp add: map_update_same)
  have L0: "links_ok ?c0" using L _ _ _ _ n l by (rule links_ok_same) simp_all
  have le: "len c \<le> int (length (data c))" using L by (simp add: links_ok_def)
  have "dll c (recency c)" using R by (simp add: recency_ok_def)
  then have D0: "dll ?c0 (recency c)" using le _ _ _ n l by (rule dll_same) simp_all
  have "recency ?c0 = recency c" using D0 le by (intro dll_recency) simp_all
  then have R0: "recency_ok ?c0" and e: "recency ?c0 = recency c"
    using D0 by (simp_all add: recency_ok_def)
  have i: "0 \<le> i" "i < len ?c0" using index_ok_in_range[OF inv k] by simp_all
  show "recency_ok c'" using L0 R0 i P by (rule promote_recency)
  show "recency c' = i # remove1 i (recency c)"
    using promote_recency(2)[OF L0 R0 i P] e by simp
  show "tail c' = last (recency c')" using L0 R0 i P by (rule promote_recency)
qed

lemma Get_recency:
  assumes inv: "cache_inv nan c" and R: "recency_ok c" and g: "Get nan k c = Some (r, c')"
  shows "recency_ok c'"
proof (cases "map_lookup nan (keys c) k")
  case None
  then show ?thesis using g R by (simp add: Get_miss)
next
  case (Some i)
  have L: "links_ok c" using inv by (simp add: cache_inv_def)
  have I: "in_range i (data c)" using inv Some by (rule index_ok_in_range)
  have i: "0 \<le> i" "i < len c" using index_ok_in_range[OF inv Some] by simp_all
  from g Some I obtain c1 where "promote i c = Some c1" "c' = c1"
    by (auto simp: Get_def split: bind_splits)
  then show ?thesis using promote_recency(1)[OF L R i] by simp
qed

lemma Put_evict_recency:
  assumes inv: "cache_inv nan c" and nz: "cap c \<noteq> 0" and k: "map_lookup nan (keys c) k = None"
    and full: "len c = int (length (data c))"
    and R: "recency_ok c" and p: "Put nan k v c w = Some (e, c', w')"
  shows "recency_ok c'" and "recency c' = tail c # remove1 (tail c) (recency c)"
proof -
  let ?t = "nat (tail c)"
  let ?c0 = "c\<lparr>keys := map_delete nan (keys c) (key (data c ! ?t)) @ [(k, tail c)],
               data := (data c)[?t := (data c ! ?t)\<lparr>key := k, val := v\<rparr>]\<rparr>"
  from Put_evict[OF inv nz k full, of v w] p have P: "promote (tail c) ?c0 = Some c'" by auto
  have L: "links_ok c" using inv by (simp add: cache_inv_def)
  have n: "map next (data ?c0) = map next (data c)" by (simp add: map_update_same)
  have l: "map last' (data ?c0) = map last' (data c)" by (simp add: map_update_same)
  have L0: "links_ok ?c0" using L _ _ _ _ n l by (rule links_ok_same) simp_all
  have le: "len c \<le> int (length (data c))" using L by (simp add: links_ok_def)
  have "dll c (recency c)" using R by (simp add: recency_ok_def)
  then have D0: "dll ?c0 (recency c)" using le _ _ _ n l by (rule dll_same) simp_all
  have "recency ?c0 = recency c" using D0 le by (intro dll_recency) simp_all
  then have R0: "recency_ok ?c0" and e: "recency ?c0 = recency c"
    using D0 by (simp_all add: recency_ok_def)
  have "in_range (tail c) (data c)" using L nz by (simp add: links_ok_def)
  then have t: "0 \<le> tail c" "tail c < len ?c0" using full by (simp_all add: in_range_def)
  show "recency_ok c'" using L0 R0 t P by (rule promote_recency)
  show "recency c' = tail c # remove1 (tail c) (recency c)"
    using promote_recency(2)[OF L0 R0 t P] e by simp
qed

lemma Put_insert_recency:
  assumes inv: "cache_inv nan c" and nz: "cap c \<noteq> 0" and k: "map_lookup nan (keys c) k = None"
    and room: "len c < int (length (data c))"
    and R: "recency_ok c" and p: "Put nan k v c w = Some (e, c', w')"
  shows "recency_ok c'" and "recency c' = len c # recency c"
proof -
  let ?xs = "recency c"
  let ?nx = "map next (data c)" and ?ls = "map last' (data c)"
  from Put_insert[OF inv nz k room, of v w] p have
    c': "len c' = len c + 1" "tail c' = tail c" "head c' = len c"
    "map next (data c') = ?nx[nat (len c) := head c]"
    "map last' (data c') = ?ls[nat (len c) := 0, nat (head c) := len c]"
    by auto
  have L: "links_ok c" using inv by (simp add: cache_inv_def)
  have le: "len c \<le> int (length (data c))" "0 \<le> len c" using L by (simp_all add: links_ok_def)
  have hb: "0 \<le> head c" "nat (head c) < length (data c)"
    using L nz by (auto simp: links_ok_def in_range_def)
  have "length (map next (data c')) = length (?nx[nat (len c) := head c])"
    using c'(4) by (rule arg_cong)
  then have l': "len c' \<le> int (length (data c'))" using room c'(1) by simp
  have D: "dll c ?xs" using R by (simp add: recency_ok_def)
  then have d: "distinct ?xs" and s: "set ?xs = {0..<len c}" and lk: "linked ?nx ?ls ?xs"
    and ht: "?xs = [] \<and> tail c = 0 \<or> ?xs \<noteq> [] \<and> head c = hd ?xs \<and> tail c = last ?xs"
    by (simp_all add: dll_iff[OF le(1)])
  have b: "0 \<le> x \<and> x < len c" if "x \<in> set ?xs" for x using that s by simp
  have lk': "linked (map next (data c')) (map last' (data c')) ?xs"
    using lk
  proof (rule linked_frame)
    fix x assume "x \<in> set (butlast ?xs)"
    then have "x \<in> set ?xs" by (rule in_set_butlastD)
    then have "nat x \<noteq> nat (len c)" using b[of x] by auto
    then show "map next (data c') ! nat x = ?nx ! nat x" unfolding c'(4) by simp
  next
    fix y assume y: "y \<in> set (tl ?xs)"
    then have ne: "?xs \<noteq> []" by auto
    have yx: "y \<in> set ?xs" using y ne by (rule list.set_sel(2)[rotated])
    have "y \<noteq> hd ?xs" using y d ne by (metis distinct.simps(2) list.collapse)
    then have "y \<noteq> head c" using ht ne by simp
    then have "nat y \<noteq> nat (head c)" using b[OF yx] hb by auto
    moreover have "nat y \<noteq> nat (len c)" using b[OF yx] by auto
    ultimately show "map last' (data c') ! nat y = ?ls ! nat y" unfolding c'(5) by simp
  qed
  have "dll c' (len c # ?xs)"
  proof (cases "?xs = []")
    case True
    then have z: "len c = 0" using s le(2) by auto
    have "{0::int} = {0..<1}" by auto
    then show ?thesis using z True ht c' by (simp add: dll_iff[OF l'] linked_Cons)
  next
    case False
    have h: "head c = hd ?xs" "tail c = last ?xs" using ht False by simp_all
    have "head c \<in> set ?xs" using h False by simp
    then have "nat (head c) \<noteq> nat (len c)" using b[of "head c"] by auto
    then have 1: "map next (data c') ! nat (len c) = hd ?xs"
      unfolding c'(4) using room le(2) h by simp
    have 2: "map last' (data c') ! nat (hd ?xs) = len c"
      unfolding c'(5) using hb h by simp
    have "set (len c # ?xs) = {0..<len c'}" using s le(2) c'(1) by auto
    moreover have "distinct (len c # ?xs)" using d s by simp
    ultimately show ?thesis
      using lk' 1 2 False h c'(2,3) by (simp add: dll_iff[OF l'] linked_Cons)
  qed
  then show "recency_ok c'" "recency c' = len c # recency c"
    using l' by (auto intro: recency_okI dll_recency)
qed

lemma recency_ok_New: "recency_ok (New cp ev)"
  by (simp add: recency_ok_def recency_def dll_def New_def)

lemma Put_recency:
  assumes inv: "cache_inv nan c" and R: "recency_ok c" and p: "Put nan k v c w = Some (e, c', w')"
  shows "recency_ok c'"
proof (cases "cap c = 0")
  case True
  then show ?thesis using p R by (simp add: Put_def)
next
  case nz: False
  show ?thesis
  proof (cases "map_lookup nan (keys c) k")
    case (Some i)
    show ?thesis using inv Some R p by (rule Put_present_recency)
  next
    case None
    have "len c \<le> int (length (data c))" using inv by (simp add: cache_inv_def links_ok_def)
    then consider "len c < int (length (data c))" | "len c = int (length (data c))" by linarith
    then show ?thesis
    proof cases
      case 1 show ?thesis using inv nz None 1 R p by (rule Put_insert_recency)
    next
      case 2 show ?thesis using inv nz None 2 R p by (rule Put_evict_recency)
    qed
  qed
qed

lemma step_recency:
  assumes inv: "cache_inv nan c" and R: "recency_ok c" and x: "x \<noteq> OpClear"
    and s: "step nan x c w = Some (r, c', w')"
  shows "recency_ok c'"
proof (cases x)
  case (OpGet k)
  then show ?thesis using s Get_recency[OF inv R] by (auto split: bind_splits)
next
  case (OpPut k v)
  then show ?thesis using s Put_recency[OF inv R] by (auto split: bind_splits)
next
  case OpClear
  then show ?thesis using x by simp
next
  case (OpAll stop) then show ?thesis using s R by (auto split: bind_splits)
next
  case (OpKeys stop) then show ?thesis using s R by (auto split: bind_splits)
next
  case (OpValues stop) then show ?thesis using s R by (auto split: bind_splits)
qed

lemma run_recency:
  assumes "cache_inv nan c" and "recency_ok c" and "OpClear \<notin> set xs"
    and "run nan xs c w = Some (rs, c', w')"
  shows "recency_ok c'"
  using assms
proof (induction xs arbitrary: c w rs)
  case Nil
  then show ?case by simp
next
  case (Cons x xs)
  from step_ok[OF Cons.prems(1), of x w] obtain r c1 w1 where
    s: "step nan x c w = Some (r, c1, w1)" "cache_inv nan c1" by blast
  have x: "x \<noteq> OpClear" "OpClear \<notin> set xs" using Cons.prems(3) by auto
  have R1: "recency_ok c1" using Cons.prems(1,2) x(1) s(1) by (rule step_recency)
  from Cons.prems(4) s(1) obtain rs1 where "run nan xs c1 w1 = Some (rs1, c', w')"
    by (auto split: bind_splits)
  then show ?case using Cons.IH[OF s(2) R1 x(2)] by blast
qed

section \<open>The claims\<close>

subsection \<open>Sequences of operations\<close>

lemma run_append:
  "run nan (xs @ ys) c w =
     do { (rs, c', w') \<leftarrow> run nan xs c w;
          (rs', c'', w'') \<leftarrow> run nan ys c' w';
          Some (rs @ rs', c'', w'') }"
  by (induction xs arbitrary: c w) (auto split: bind_splits)

lemma Put_cap_0: "cap c = 0 \<Longrightarrow> Put nan k v c w = Some (None, c, w)"
  by (simp add: Put_def)

lemma run_puts_cap_0:
  "cap c = 0 \<Longrightarrow>
     run nan (map (\<lambda>(k, v). OpPut k v) kvs) c w = Some (map (\<lambda>_. PutRes None) kvs, c, w)"
  by (induction kvs) (auto simp: Put_cap_0)

subsection \<open>A cleared cache against a fresh one\<close>

text \<open>
  C1 says that a cache that evicted an entry and was then cleared behaves, on every
  later sequence of operations, as a cache fresh from \<^verbatim>\<open>New\<close>. The code does not:
  \<^verbatim>\<open>Clear\<close> leaves \<^verbatim>\<open>tail\<close> where the evictions moved it, and the insertion path of
  \<^verbatim>\<open>Put\<close> never sets it. With capacity 2, after
  \<^verbatim>\<open>Put(a,1); Put(b,2); Put(c,3); Clear()\<close> the cursor \<^verbatim>\<open>tail\<close> is 1. The sequence
  \<^verbatim>\<open>Put(x,1); Put(y,2); Put(z,3)\<close> then passes \<^verbatim>\<open>(y,2)\<close>, the most recently used
  entry, to the callback and \<^verbatim>\<open>Get(y)\<close> misses, while on a fresh cache the same
  sequence passes \<^verbatim>\<open>(x,1)\<close> to the callback and \<^verbatim>\<open>Get(x)\<close> misses. The theorem
  evaluates both runs (operation results and the callback's record).
\<close>

theorem C1_cleared_cache_differs:
  "do { (rs, c, w) \<leftarrow> run (\<lambda>_. False) [OpPut ''a'' 1, OpPut ''b'' 2, OpPut ''c'' 3, OpClear]
                        (New 2 (Some (recording (\<lambda>k v. None :: unit error option)))) [];
        (rs', c', w') \<leftarrow> run (\<lambda>_. False) [OpPut ''x'' (1::int), OpPut ''y'' 2, OpPut ''z'' 3,
                              OpGet ''x'', OpGet ''y'', OpGet ''z''] c [];
        Some (rs', w') } =
     Some ([PutRes None, PutRes None, PutRes None,
            GetRes 1 True, GetRes default False, GetRes 3 True], [(''y'', 2)]) \<and>
   do { (rs', c', w') \<leftarrow> run (\<lambda>_. False) [OpPut ''x'' (1::int), OpPut ''y'' 2, OpPut ''z'' 3,
                              OpGet ''x'', OpGet ''y'', OpGet ''z'']
                          (New 2 (Some (recording (\<lambda>k v. None :: unit error option)))) [];
        Some (rs', w') } =
     Some ([PutRes None, PutRes None, PutRes None,
            GetRes default False, GetRes 2 True, GetRes 3 True], [(''x'', 1)])"
  by code_simp

subsection \<open>The scenario of capacity 2\<close>

text \<open>
  C2: on a fresh cache of capacity 2 without callback, \<^verbatim>\<open>put(a,1); put(b,2); get(a)\<close>
  returns \<^verbatim>\<open>(1,true)\<close> for the \<^verbatim>\<open>get\<close> and leaves \<^verbatim>\<open>a\<close> at the head and \<^verbatim>\<open>b\<close> at the
  tail, so that \<^verbatim>\<open>put(c,3)\<close> evicts \<^verbatim>\<open>b\<close>; afterwards \<^verbatim>\<open>get(b)\<close> returns the zero
  value and \<^verbatim>\<open>false\<close>, \<^verbatim>\<open>get(a)\<close> returns \<^verbatim>\<open>(1,true)\<close> and \<^verbatim>\<open>get(c)\<close> returns
  \<^verbatim>\<open>(3,true)\<close>.
\<close>

theorem C2_scenario:
  "(case run (\<lambda>_. False) [OpPut ''a'' 1, OpPut ''b'' 2, OpGet ''a'']
           (New 2 (None :: (string, int, unit, unit) evict_func option)) () of
      None \<Rightarrow> False
    | Some (rs, c, w) \<Rightarrow>
        rs = [PutRes None, PutRes None, GetRes 1 True] \<and>
        key (data c ! nat (head c)) = ''a'' \<and> key (data c ! nat (tail c)) = ''b'') \<and>
   map_option fst
     (run (\<lambda>_. False) [OpPut ''a'' 1, OpPut ''b'' 2, OpGet ''a'', OpPut ''c'' 3,
           OpGet ''b'', OpGet ''a'', OpGet ''c'']
        (New 2 (None :: (string, int, unit, unit) evict_func option)) ()) =
   Some [PutRes None, PutRes None, GetRes 1 True, PutRes None,
         GetRes default False, GetRes 1 True, GetRes 3 True]"
  by code_simp

subsection \<open>A miss changes nothing\<close>

text \<open>
  C7: for every cache state and every key that the key index does not find, \<^verbatim>\<open>Get\<close>
  returns the zero value and \<^verbatim>\<open>false\<close>, and the cache it leaves is the cache it found:
  length, head, tail, slot array and key index are unchanged.
\<close>

theorem C7_get_miss:
  "map_lookup nan (keys c) k = None \<Longrightarrow> Get nan k c = Some ((default, False), c)"
  by (simp add: Get_def)

text \<open>
  An instance: the key \<^verbatim>\<open>c\<close> on a cache that holds \<^verbatim>\<open>a\<close> and \<^verbatim>\<open>b\<close>.
\<close>

theorem C7_get_miss_witness:
  "map_lookup (\<lambda>_. False) (keys two_entries) ''c'' = None \<and>
   Get (\<lambda>_. False) ''c'' two_entries = Some ((0, False), two_entries)"
  using C7_get_miss[of "\<lambda>_. False" two_entries "''c''"]
  by (simp add: two_entries_def default_int_def map_lookup_def go_eq_def)

subsection \<open>Capacity 0\<close>

text \<open>
  C10: on a cache constructed with capacity 0, every \<^verbatim>\<open>Put\<close> returns the nil error,
  leaves the cache as it was and does not run the callback (the callback's state \<open>w\<close> is
  returned unchanged); after any number of such calls a \<^verbatim>\<open>Get\<close> of any key returns the
  zero value and \<^verbatim>\<open>false\<close>.
\<close>

theorem C10_capacity_zero:
  "Put nan k v (New 0 ev) w = Some (None, New 0 ev, w) \<and>
   run nan (map (\<lambda>(k, v). OpPut k v) kvs @ [OpGet k']) (New 0 ev) w =
     Some (map (\<lambda>_. PutRes None) kvs @ [GetRes default False], New 0 ev, w)"
proof -
  have z: "cap (New 0 ev) = 0" by (simp add: New_def)
  have "Get nan k' (New 0 ev) = Some ((default, False), New 0 ev)"
    by (simp add: Get_def New_def map_lookup_Nil)
  then show ?thesis
    using Put_cap_0[OF z, of nan] run_puts_cap_0[OF z, of nan] by (simp add: run_append)
qed

subsection \<open>The invariants along a run\<close>

lemma run_New_inv:
  "\<exists>rs c' w'. run nan ops (New cp ev) w = Some (rs, c', w') \<and> cache_inv nan c' \<and> cap c' = cp"
  using run_ok[OF cache_inv_New, of nan ops cp ev w] by (simp add: New_def)

lemma links_ok_length: "links_ok c \<Longrightarrow> int (length (data c)) = uint (cap c)"
proof -
  assume "links_ok c"
  then have "length (data c) = unat (cap c)" by (simp add: links_ok_def)
  then have "int (length (data c)) = int (unat (cap c))" by (rule arg_cong)
  then show ?thesis by simp
qed

lemma index_ok_nth:
  assumes "cache_inv nan c" "0 \<le> i" "i < len c" "\<not> nan (key (data c ! nat i))"
  shows "map_lookup nan (keys c) (key (data c ! nat i)) = Some i"
proof -
  have "len c \<le> int (length (data c))" using assms(1) by (simp add: cache_inv_def links_ok_def)
  then have n: "nat i < length (data c)" using assms(2,3) by auto
  then have "0 \<le> i \<and> i < len c \<and> \<not> nan (map key (data c) ! nat i)" using assms by simp
  then have "map_lookup nan (keys c) (map key (data c) ! nat i) = Some i"
    using assms(1) unfolding cache_inv_def index_ok_def index_rel_def by blast
  then show ?thesis using n by simp
qed

text \<open>
  With a key that is not equal to itself the key index outgrows the cache. On a cache
  of capacity 1, \<^verbatim>\<open>Put(NaN, 1); Put(NaN, 2)\<close>: the second \<^verbatim>\<open>Put\<close> does not find the key,
  \<^verbatim>\<open>delete\<close> removes nothing, and the assignment adds a second entry. The index then
  holds 2 entries, with length 1 and capacity 1.
\<close>

theorem C3_counterexample:
  "map_option (length \<circ> keys \<circ> fst \<circ> snd)
     (run is_NaN [OpPut NaN (1::int), OpPut NaN 2]
        (New 1 (None :: (fkey, int, unit, unit) evict_func option)) ()) = Some 2 \<and>
   map_option (len \<circ> fst \<circ> snd)
     (run is_NaN [OpPut NaN (1::int), OpPut NaN 2]
        (New 1 (None :: (fkey, int, unit, unit) evict_func option)) ()) = Some 1"
  by code_simp

text \<open>
  C3, for keys that are equal to themselves: start from \<^verbatim>\<open>New(capacity, evict)\<close> and run
  any sequence of \<^verbatim>\<open>Get\<close>, \<^verbatim>\<open>Put\<close> and \<^verbatim>\<open>Clear\<close> (and iterations) in which no key passed to
  \<^verbatim>\<open>Put\<close> is unequal to itself. The sequence runs to its end, and in the cache it leaves
  the number of entries of the key index is the length, no key has two entries, the
  length is between 0 and the capacity, every entry of the index maps its key to a slot
  position below the length whose stored key is that key, every active slot has the
  entry of its own key, and so the number of keys held is at most the capacity. As the
  sequence is arbitrary, this holds after each operation of a run.
\<close>

theorem C3_index_invariant:
  assumes "list_all (\<lambda>k. \<not> nan k) (put_keys ops)"
  shows "\<exists>rs c' w'. run nan ops (New cp ev) w = Some (rs, c', w') \<and>
     length (keys c') = nat (len c') \<and> distinct (map fst (keys c')) \<and>
     0 \<le> len c' \<and> len c' \<le> uint cp \<and>
     (\<forall>k i. (k, i) \<in> set (keys c') \<longrightarrow> 0 \<le> i \<and> i < len c' \<and> key (data c' ! nat i) = k) \<and>
     (\<forall>i. 0 \<le> i \<and> i < len c' \<longrightarrow> (key (data c' ! nat i), i) \<in> set (keys c')) \<and>
     length (keys c') \<le> unat cp"
proof -
  from run_no_nan[OF cache_inv_New no_nan_New assms, of cp ev w] obtain rs c' w' where
    r: "run nan ops (New cp ev) w = Some (rs, c', w')" and inv: "cache_inv nan c'"
    and nn: "no_nan nan c'" and cp: "cap c' = cp"
    by (auto simp: New_def)
  have L: "links_ok c'" using inv by (simp add: cache_inv_def)
  have len: "0 \<le> len c'" "len c' \<le> uint cp"
    using L links_ok_length[OF L] cp by (simp_all add: links_ok_def)
  have n: "length (keys c') = nat (len c')" using inv nn by (rule no_nan_length)
  have "nat (len c') \<le> unat cp" using len by (simp add: nat_le_iff)
  then have "length (keys c') \<le> unat cp" using n by simp
  moreover have "distinct (map fst (keys c'))" using nn by (simp add: no_nan_iff)
  moreover have "\<forall>k i. (k, i) \<in> set (keys c') \<longrightarrow>
      0 \<le> i \<and> i < len c' \<and> key (data c' ! nat i) = k"
    using index_ok_in_range[OF inv no_nan_lookup[OF nn]] by blast
  moreover have "\<forall>i. 0 \<le> i \<and> i < len c' \<longrightarrow> (key (data c' ! nat i), i) \<in> set (keys c')"
  proof (intro allI impI)
    fix i assume i: "0 \<le> i \<and> i < len c'"
    have "len c' \<le> int (length (data c'))" using L by (simp add: links_ok_def)
    then have "nat i < nat (len c')" "nat i < length (data c')" using i by auto
    then have "\<not> nan (map key (data c') ! nat i)" using nn unfolding no_nan_iff by blast
    then have "\<not> nan (key (data c' ! nat i))" using \<open>nat i < length (data c')\<close> by simp
    then have "map_lookup nan (keys c') (key (data c' ! nat i)) = Some i"
      using index_ok_nth[OF inv] i by blast
    then show "(key (data c' ! nat i), i) \<in> set (keys c')" by (rule map_lookup_Some)
  qed
  ultimately show ?thesis using r len n by blast
qed

text \<open>
  An instance, on a run with an eviction, a \<^verbatim>\<open>Get\<close> of NaN, a \<^verbatim>\<open>Clear\<close> and an insertion.
\<close>

theorem C3_index_invariant_witness:
  "list_all (\<lambda>k. \<not> is_NaN k)
     (put_keys [OpPut (Num 1) (1::int), OpPut (Num 2) 2, OpGet NaN, OpPut (Num 3) 3, OpClear,
                OpPut (Num 7) 7]) \<and>
   (\<exists>rs c' w'.
      run is_NaN [OpPut (Num 1) (1::int), OpPut (Num 2) 2, OpGet NaN, OpPut (Num 3) 3, OpClear,
                  OpPut (Num 7) 7]
        (New 2 (None :: (fkey, int, unit, unit) evict_func option)) () = Some (rs, c', w') \<and>
      keys c' = [(Num 7, 0)] \<and> key (data c' ! 0) = Num 7 \<and> len c' = 1)"
proof -
  let ?ops = "[OpPut (Num 1) (1::int), OpPut (Num 2) 2, OpGet NaN, OpPut (Num 3) 3, OpClear,
               OpPut (Num 7) 7]"
  let ?c = "New 2 (None :: (fkey, int, unit, unit) evict_func option)"
  have h: "list_all (\<lambda>k. \<not> is_NaN k) (put_keys ?ops)" by simp
  from C3_index_invariant[OF h, of 2 None "()"] obtain rs c' w' where
    r: "run is_NaN ?ops ?c () = Some (rs, c', w')"
    and n: "length (keys c') = nat (len c')"
    and idx: "\<forall>k i. (k, i) \<in> set (keys c') \<longrightarrow>
               0 \<le> i \<and> i < len c' \<and> key (data c' ! nat i) = k"
    by blast
  have "map_option (keys \<circ> fst \<circ> snd) (run is_NaN ?ops ?c ()) = Some [(Num 7, 0)]"
    by code_simp
  then have e: "keys c' = [(Num 7, 0)]" using r by simp
  then have "key (data c' ! nat 0) = Num 7" using idx by simp
  then show ?thesis using h r e n by simp
qed

text \<open>
  C9: start from \<^verbatim>\<open>New(capacity, evict)\<close> and run any sequence of \<^verbatim>\<open>Get\<close>, \<^verbatim>\<open>Put\<close>,
  \<^verbatim>\<open>Clear\<close> and full or partial iterations, on any keys. No operation panics (every
  bounds check of the embedding passes, also when the capacity is 0), and in the cache
  the run leaves the slot array has \<^verbatim>\<open>capacity\<close> slots, the length is between 0 and the
  capacity, \<^verbatim>\<open>head\<close> and \<^verbatim>\<open>tail\<close> are below the capacity unless it is 0, and the
  \<^verbatim>\<open>next\<close> and \<^verbatim>\<open>last\<close> fields of every slot are below the capacity.
\<close>

theorem C9_indices_in_range:
  "\<exists>rs c' w'. run nan ops (New cp ev) w = Some (rs, c', w') \<and>
     length (data c') = unat cp \<and> 0 \<le> len c' \<and> len c' \<le> uint cp \<and>
     (cp \<noteq> 0 \<longrightarrow> 0 \<le> head c' \<and> head c' < uint cp \<and> 0 \<le> tail c' \<and> tail c' < uint cp) \<and>
     (\<forall>n \<in> set (data c').
        0 \<le> next n \<and> next n < uint cp \<and> 0 \<le> last' n \<and> last' n < uint cp)"
proof -
  from run_New_inv[of nan ops cp ev w] obtain rs c' w' where
    r: "run nan ops (New cp ev) w = Some (rs, c', w')" and inv: "cache_inv nan c'"
    and cp: "cap c' = cp"
    by blast
  have L: "links_ok c'" using inv by (simp add: cache_inv_def)
  have m: "int (length (data c')) = uint cp" using links_ok_length[OF L] cp by simp
  have "length (data c') = unat cp" using L cp by (simp add: links_ok_def)
  moreover have "0 \<le> len c'" "len c' \<le> uint cp"
    using L m by (simp_all add: links_ok_def)
  moreover have "cp \<noteq> 0 \<longrightarrow> 0 \<le> head c' \<and> head c' < uint cp \<and> 0 \<le> tail c' \<and> tail c' < uint cp"
    using L m cp by (simp add: links_ok_def in_range_def)
  moreover have "\<forall>n \<in> set (data c').
        0 \<le> next n \<and> next n < uint cp \<and> 0 \<le> last' n \<and> last' n < uint cp"
    using L m by (simp add: links_ok_def list_all_iff node_ok_def)
  ultimately show ?thesis using r by blast
qed

text \<open>
  An instance, on a run that leaves \<^verbatim>\<open>tail\<close> at slot 1.
\<close>

theorem C9_indices_in_range_witness:
  "\<exists>rs c' w'. run (\<lambda>_. False)
       [OpPut ''a'' (1::int), OpPut ''b'' 2, OpPut ''c'' 3, OpAll (Some 0), OpClear,
        OpPut ''x'' 7, OpGet ''x'', OpKeys None, OpValues None]
       (New 2 (None :: (string, int, unit, unit) evict_func option)) () = Some (rs, c', w') \<and>
     length (data c') = 2 \<and> 0 \<le> head c' \<and> head c' < 2 \<and> tail c' = 1 \<and>
     list_all (\<lambda>n. 0 \<le> next n \<and> next n < 2 \<and> 0 \<le> last' n \<and> last' n < 2) (data c')"
proof -
  let ?ops = "[OpPut ''a'' (1::int), OpPut ''b'' 2, OpPut ''c'' 3, OpAll (Some 0), OpClear,
               OpPut ''x'' 7, OpGet ''x'', OpKeys None, OpValues None]"
  let ?c = "New 2 (None :: (string, int, unit, unit) evict_func option)"
  from C9_indices_in_range[of "\<lambda>_. False" ?ops 2 None "()"] obtain rs c' w' where
    r: "run (\<lambda>_. False) ?ops ?c () = Some (rs, c', w')"
    and l: "length (data c') = unat (2 :: 64 word)"
    and ht: "(2 :: 64 word) \<noteq> 0 \<longrightarrow> 0 \<le> head c' \<and> head c' < uint (2 :: 64 word) \<and>
             0 \<le> tail c' \<and> tail c' < uint (2 :: 64 word)"
    and ns: "\<forall>n \<in> set (data c').
        0 \<le> next n \<and> next n < uint (2 :: 64 word) \<and> 0 \<le> last' n \<and> last' n < uint (2 :: 64 word)"
    by blast
  have "map_option (\<lambda>(rs, c, w). tail c) (run (\<lambda>_. False) ?ops ?c ()) = Some 1"
    by code_simp
  then have "tail c' = 1" using r by simp
  then show ?thesis using r l ht ns by (simp add: list_all_iff)
qed

subsection \<open>Put on a key that is present\<close>

lemma index_rel_concrete:
  assumes "\<And>k i. (k, i) \<in> set m \<Longrightarrow> 0 \<le> i \<and> i < n \<and> xs ! nat i = k"
    and "\<And>i. 0 \<le> i \<Longrightarrow> i < n \<Longrightarrow> map_lookup (\<lambda>_. False) m (xs ! nat i) = Some i"
  shows "index_rel (\<lambda>_. False) (map_lookup (\<lambda>_. False) m) n xs"
  unfolding index_rel_def using assms by (auto dest: map_lookup_Some(2))

lemma two_entries_inv: "cache_inv (\<lambda>_. False) two_entries"
proof -
  have "links_ok two_entries"
    by (simp add: two_entries_def links_ok_def in_range_def node_ok_def)
  moreover have "index_rel (\<lambda>_. False) (map_lookup (\<lambda>_. False) [(''a'', 0), (''b'', 1)]) 2
      [''a'', ''b'']"
  proof (rule index_rel_concrete)
    fix k :: string and i :: int
    assume "(k, i) \<in> set [(''a'', 0), (''b'', 1)]"
    then have "k = ''a'' \<and> i = 0 \<or> k = ''b'' \<and> i = 1" by auto
    then show "0 \<le> i \<and> i < 2 \<and> [''a'', ''b''] ! nat i = k" by auto
  next
    fix i :: int assume "0 \<le> i" "i < 2"
    then have "i = 0 \<or> i = 1" by auto
    then show "map_lookup (\<lambda>_. False) [(''a'', 0), (''b'', 1)] ([''a'', ''b''] ! nat i) = Some i"
      by (auto simp: map_lookup_def go_eq_def)
  qed
  then have "index_ok (\<lambda>_. False) two_entries" by (simp add: index_ok_def two_entries_def)
  ultimately show ?thesis by (simp add: cache_inv_def)
qed






subsection \<open>Put on a full cache\<close>

text \<open>
  With a key that is not equal to itself the new entry is never found. On a full cache
  of capacity 1 holding the key 1, with a callback, \<^verbatim>\<open>Put(NaN, 20)\<close> invokes the callback
  once, with \<^verbatim>\<open>(1, 10)\<close>, and returns its nil error; afterwards \<^verbatim>\<open>Get(NaN)\<close> returns the
  zero value and \<^verbatim>\<open>false\<close>, not \<^verbatim>\<open>(20, true)\<close>.
\<close>

theorem C4_counterexample:
  "map_option (len \<circ> fst \<circ> snd)
     (run is_NaN [OpPut (Num 1) (10::int)]
        (New 1 (Some (recording (\<lambda>k v. None :: unit error option)))) []) = Some 1 \<and>
   map_option (\<lambda>r. map_lookup is_NaN (keys (fst (snd r))) NaN)
     (run is_NaN [OpPut (Num 1) (10::int)]
        (New 1 (Some (recording (\<lambda>k v. None :: unit error option)))) []) = Some None \<and>
   map_option fst
     (run is_NaN [OpPut (Num 1) (10::int), OpPut NaN 20, OpGet NaN, OpGet (Num 1)]
        (New 1 (Some (recording (\<lambda>k v. None :: unit error option)))) []) =
   Some [PutRes None, PutRes None, GetRes 0 False, GetRes 0 False] \<and>
   map_option (snd \<circ> snd)
     (run is_NaN [OpPut (Num 1) (10::int), OpPut NaN 20, OpGet NaN, OpGet (Num 1)]
        (New 1 (Some (recording (\<lambda>k v. None :: unit error option)))) []) =
   Some [(Num 1, 10)]"
  by code_simp

text \<open>
  C4, for a key that is equal to itself: in a cache that satisfies the invariants with
  length = capacity > 0 and a callback \<open>f\<close>, \<^verbatim>\<open>Put(key, val)\<close> on an absent key that is
  equal to itself runs \<open>f\<close> once, on the key and value of the slot at \<^verbatim>\<open>tail\<close>: the error
  it returns is the error of that call and the callback's state is the state after
  that call. Whatever the error, afterwards \<^verbatim>\<open>Get(key)\<close> returns \<^verbatim>\<open>(val, true)\<close> and
  \<^verbatim>\<open>Get\<close> of the victim's key returns the zero value and \<^verbatim>\<open>false\<close>. And on a fresh cache
  of capacity 1 whose callback records its invocations and always fails,
  \<^verbatim>\<open>put(a,1); put(b,2)\<close> invokes the callback once, with \<^verbatim>\<open>(a,1)\<close>, the second \<^verbatim>\<open>put\<close>
  returns the callback's error, and \<^verbatim>\<open>get(a)\<close> then misses.
\<close>

theorem C4_put_evicts:
  assumes inv: "cache_inv nan c" and nz: "cap c \<noteq> 0" and full: "len c = uint (cap c)"
    and absent: "map_lookup nan (keys c) k = None" and refl: "\<not> nan k"
    and cb: "evict c = Some f"
  shows "(\<exists>c'. Put nan k v c w =
            Some (fst (f (key (data c ! nat (tail c))) (val (data c ! nat (tail c))) w),
                  c',
                  snd (f (key (data c ! nat (tail c))) (val (data c ! nat (tail c))) w)) \<and>
            (\<exists>c''. Get nan k c' = Some ((v, True), c'')) \<and>
            Get nan (key (data c ! nat (tail c))) c' = Some ((default, False), c')) \<and>
         map_option (\<lambda>(rs, c, calls). (rs, calls))
           (run (\<lambda>_. False) [OpPut ''a'' (1::int), OpPut ''b'' 2, OpGet ''a'']
              (New 1 (Some (recording (\<lambda>k v. Some (Err k))))) []) =
         Some ([PutRes None, PutRes (Some (Err ''a'')), GetRes default False], [(''a'', 1)])"
proof -
  let ?t = "tail c"
  let ?vk = "key (data c ! nat ?t)"
  let ?vv = "val (data c ! nat ?t)"
  have L: "links_ok c" using inv by (simp add: cache_inv_def)
  have full': "len c = int (length (data c))" using full links_ok_length[OF L] by simp
  have T: "in_range ?t (data c)" using L nz by (simp add: links_ok_def)
  then have tl: "0 \<le> ?t" "?t < len c" "nat ?t < length (data c)"
    using full' by (auto simp: in_range_def)
  from Put_evict[OF inv nz absent full', of v w] cb obtain c' where
    p: "Put nan k v c w = Some (fst (f ?vk ?vv w), c', snd (f ?vk ?vv w))" "cache_inv nan c'"
    "keys c' = map_delete nan (keys c) ?vk @ [(k, ?t)]"
    "map val (data c') = (map val (data c))[nat ?t := v]"
    "map key (data c') = (map key (data c))[nat ?t := k]"
    by auto
  have "length (map key (data c')) = length ((map key (data c))[nat ?t := k])"
    using p(5) by (rule arg_cong)
  then have l: "length (data c') = length (data c)" by simp
  have "map val (data c') ! nat ?t = v" using p(4) tl(3) by simp
  then have vt: "val (data c' ! nat ?t) = v" using tl(3) l by simp
  have lk: "map_lookup nan (keys c') k' =
      (if go_eq nan ?vk k' then (if go_eq nan k k' then Some ?t else None)
       else case map_lookup nan (keys c) k' of
              Some i \<Rightarrow> Some i
            | None \<Rightarrow> if go_eq nan k k' then Some ?t else None)" for k'
    unfolding p(3) by (simp add: map_lookup_append1 map_lookup_delete)
  have nvk: "\<not> go_eq nan ?vk k"
  proof
    assume g: "go_eq nan ?vk k"
    then have "\<not> nan ?vk" "?vk = k" by (auto simp: go_eq_def)
    then show False using index_ok_nth[OF inv tl(1,2)] absent by simp
  qed
  have kk: "map_lookup nan (keys c') k = Some ?t"
    using lk[of k] nvk absent refl by (simp add: go_eq_def)
  from Get_hit[OF p(2) kk] vt have hit: "\<exists>c''. Get nan k c' = Some ((v, True), c'')" by auto
  have "map_lookup nan (keys c') ?vk = None"
  proof (cases "nan ?vk")
    case True
    then show ?thesis by (rule map_lookup_nan)
  next
    case False
    then have "go_eq nan ?vk ?vk" by (simp add: go_eq_def)
    moreover have "\<not> go_eq nan k ?vk" using nvk by (auto simp: go_eq_def)
    ultimately show ?thesis using lk[of ?vk] by simp
  qed
  then have miss: "Get nan ?vk c' = Some ((default, False), c')" by (rule Get_miss)
  have "map_option (\<lambda>(rs, c, calls). (rs, calls))
           (run (\<lambda>_. False) [OpPut ''a'' (1::int), OpPut ''b'' 2, OpGet ''a'']
              (New 1 (Some (recording (\<lambda>k v. Some (Err k))))) []) =
         Some ([PutRes None, PutRes (Some (Err ''a'')), GetRes default False], [(''a'', 1)])"
    by code_simp
  then show ?thesis using p(1) hit miss by blast
qed

text \<open>
  An instance: \<^verbatim>\<open>Put("c", 3)\<close> on the full cache holding \<^verbatim>\<open>a\<close> and \<^verbatim>\<open>b\<close>.
\<close>

theorem C4_put_evicts_witness:
  "cache_inv (\<lambda>_. False) two_entries \<and> cap two_entries \<noteq> 0 \<and>
   len two_entries = uint (cap two_entries) \<and>
   map_lookup (\<lambda>_. False) (keys two_entries) ''c'' = None \<and>
   evict two_entries = Some (recording (\<lambda>k v. Some (Err k))) \<and>
   (\<exists>c'. Put (\<lambda>_. False) ''c'' 3 two_entries [] = Some (Some (Err ''a''), c', [(''a'', 1)]) \<and>
      (\<exists>c''. Get (\<lambda>_. False) ''c'' c' = Some ((3, True), c'')) \<and>
      Get (\<lambda>_. False) ''a'' c' = Some ((0, False), c'))"
proof -
  have h: "cap two_entries \<noteq> 0" "len two_entries = uint (cap two_entries)"
    "map_lookup (\<lambda>_. False) (keys two_entries) ''c'' = None"
    "\<not> (\<lambda>_. False) ''c''"
    "evict two_entries = Some (recording (\<lambda>k v. Some (Err k)))"
    by (simp_all add: two_entries_def map_lookup_def go_eq_def)
  from C4_put_evicts[OF two_entries_inv h, of 3 "[]"] show ?thesis
    using two_entries_inv h by (simp add: two_entries_def recording_def default_int_def)
qed

subsection \<open>Clear\<close>

lemma take_eq_map_nth:
  "n \<le> length xs \<Longrightarrow> take n xs = map ((!) xs) [0..<n]"
  by (rule nth_equalityI) simp_all

lemma wrapped_opt_Join:
  "wrapped_opt (errors_Join [e, r]) = wrapped_opt e @ wrapped_opt r"
  by (cases e; cases r) (simp_all add: errors_Join_def wrapped_opt_def List.map_filter_simps)

lemma errors_Join_None:
  "errors_Join [e, r] = None \<longleftrightarrow> e = None \<and> r = None"
  by (cases e; cases r) (simp_all add: errors_Join_def List.map_filter_simps)

lemma evict_each_recording:
  "\<exists>e'. evict_each (recording errf) ns e w = (e', w @ map (\<lambda>n. (key n, val n)) ns) \<and>
     wrapped_opt e' = wrapped_opt e @ concat (map (\<lambda>n. wrapped_opt (errf (key n) (val n))) ns) \<and>
     (e' = None \<longleftrightarrow> e = None \<and> (\<forall>n \<in> set ns. errf (key n) (val n) = None))"
proof (induction ns arbitrary: e w)
  case Nil
  then show ?case by simp
next
  case (Cons n ns)
  from Cons[of "errors_Join [e, errf (key n) (val n)]" "w @ [(key n, val n)]"]
  show ?case
    by (auto simp: recording_def wrapped_opt_Join errors_Join_None)
qed

lemma Clear_again:
  assumes "len c = 0" and "keys c = []"
  shows "Clear c w = Some (None, c, w)"
proof -
  have "Clear c w = Some (None, c\<lparr>data := data c, keys := [], len := 0\<rparr>, w)"
    using assms(1) by (cases "evict c") (simp_all add: Clear_def slice_to_def)
  then show ?thesis using assms by simp
qed

text \<open>
  C6: for every cache whose length is between 0 and the number of slots, \<^verbatim>\<open>Clear\<close>
  leaves length 0 and an empty key index, and a \<^verbatim>\<open>Clear\<close> right after it returns the
  nil error and does not run the callback. Without callback \<^verbatim>\<open>Clear\<close> returns the nil
  error. With a callback that records its invocations and returns \<open>errf key val\<close>, the
  record grows by the key and value of the slots 0, 1, ... up to the length, in this
  order (storage order); the error returned wraps exactly the errors of these calls,
  in this order, and is nil if and only if every call returned nil.
\<close>

theorem C6_clear:
  assumes "0 \<le> len c" and "len c \<le> int (length (data c))"
  shows "(\<exists>e c' w'. Clear c w = Some (e, c', w') \<and> len c' = 0 \<and> keys c' = [] \<and>
            Clear c' w' = Some (None, c', w')) \<and>
         (evict c = None \<longrightarrow> (\<exists>c'. Clear c w = Some (None, c', w))) \<and>
         (\<forall>errf. evict c = Some (recording errf) \<longrightarrow>
            (\<exists>e c'. Clear c w =
                 Some (e, c', w @ map (\<lambda>i. (key (data c ! i), val (data c ! i))) [0..<nat (len c)]) \<and>
               wrapped_opt e =
                 concat (map (\<lambda>i. wrapped_opt (errf (key (data c ! i)) (val (data c ! i))))
                           [0..<nat (len c)]) \<and>
               (e = None \<longleftrightarrow>
                 (\<forall>i < nat (len c). errf (key (data c ! i)) (val (data c ! i)) = None))))"
proof (intro conjI allI impI)
  let ?c' = "c\<lparr>data := replicate (nat (len c)) zero_node @ drop (nat (len c)) (data c),
               keys := [], len := 0\<rparr>"
  note eq = Clear_eq[OF assms, of w]
  have "Clear ?c' w' = Some (None, ?c', w')" for w' by (rule Clear_again) simp_all
  then show "\<exists>e c' w'. Clear c w = Some (e, c', w') \<and> len c' = 0 \<and> keys c' = [] \<and>
            Clear c' w' = Some (None, c', w')"
    using eq by simp
  show "\<exists>c'. Clear c w = Some (None, c', w)" if "evict c = None"
    using eq that by simp
  fix errf assume cb: "evict c = Some (recording errf)"
  let ?ns = "take (nat (len c)) (data c)"
  have ns: "?ns = map ((!) (data c)) [0..<nat (len c)]"
    using assms by (intro take_eq_map_nth) auto
  from evict_each_recording[of errf ?ns None w] obtain e where
    e: "evict_each (recording errf) ?ns None w = (e, w @ map (\<lambda>n. (key n, val n)) ?ns)"
    "wrapped_opt e = concat (map (\<lambda>n. wrapped_opt (errf (key n) (val n))) ?ns)"
    "e = None \<longleftrightarrow> (\<forall>n \<in> set ?ns. errf (key n) (val n) = None)"
    by (auto simp: wrapped_opt_def)
  have "Clear c w = Some (e, ?c', w @ map (\<lambda>n. (key n, val n)) ?ns)"
    using eq cb e(1) by simp
  moreover have "map (\<lambda>n. (key n, val n)) ?ns =
      map (\<lambda>i. (key (data c ! i), val (data c ! i))) [0..<nat (len c)]"
    unfolding ns by (simp add: comp_def)
  moreover have "concat (map (\<lambda>n. wrapped_opt (errf (key n) (val n))) ?ns) =
      concat (map (\<lambda>i. wrapped_opt (errf (key (data c ! i)) (val (data c ! i)))) [0..<nat (len c)])"
    unfolding ns by (simp add: comp_def)
  moreover have "(\<forall>n \<in> set ?ns. errf (key n) (val n) = None) \<longleftrightarrow>
      (\<forall>i < nat (len c). errf (key (data c ! i)) (val (data c ! i)) = None)"
    unfolding ns by auto
  ultimately show "\<exists>e c'. Clear c w =
                 Some (e, c', w @ map (\<lambda>i. (key (data c ! i), val (data c ! i))) [0..<nat (len c)]) \<and>
               wrapped_opt e =
                 concat (map (\<lambda>i. wrapped_opt (errf (key (data c ! i)) (val (data c ! i))))
                           [0..<nat (len c)]) \<and>
               (e = None \<longleftrightarrow>
                 (\<forall>i < nat (len c). errf (key (data c ! i)) (val (data c ! i)) = None))"
    using e(2,3) by auto
qed

text \<open>
  An instance: on the cache holding \<^verbatim>\<open>a\<close> (slot 0, least recently used) and \<^verbatim>\<open>b\<close>
  (slot 1, most recently used), the callback sees \<^verbatim>\<open>a\<close> first.
\<close>

theorem C6_clear_witness:
  "0 \<le> len two_entries \<and> len two_entries \<le> int (length (data two_entries)) \<and>
   evict two_entries = Some (recording (\<lambda>k v. Some (Err k))) \<and>
   (\<exists>e c'. Clear two_entries [] = Some (e, c', [(''a'', 1), (''b'', 2)]) \<and>
      wrapped_opt e = [''a'', ''b''] \<and> e \<noteq> None)"
proof -
  have h: "0 \<le> len two_entries" "len two_entries \<le> int (length (data two_entries))"
    and cb: "evict two_entries = Some (recording (\<lambda>k v. Some (Err k)))"
    by (simp_all add: two_entries_def)
  have n: "[0..<nat (len two_entries)] = [0, 1]" by (simp add: two_entries_def upt_rec)
  from C6_clear[OF h, of "[]"] cb have
    "\<exists>e c'. Clear two_entries [] =
         Some (e, c', [] @ map (\<lambda>i. (key (data two_entries ! i), val (data two_entries ! i)))
                          [0..<nat (len two_entries)]) \<and>
       wrapped_opt e =
         concat (map (\<lambda>i. wrapped_opt (Some (Err (key (data two_entries ! i)))))
                   [0..<nat (len two_entries)]) \<and>
       (e = None \<longleftrightarrow> (\<forall>i < nat (len two_entries). Some (Err (key (data two_entries ! i))) = None))"
    by blast
  then show ?thesis using h cb unfolding n
    by (auto simp: two_entries_def wrapped_opt_def)
qed

subsection \<open>The iterators\<close>

lemma range_yield_collect:
  "range_yield (\<lambda>n. collect stop (g n)) ns acc =
     acc @ (case stop of
              None \<Rightarrow> map g ns
            | Some m \<Rightarrow> if length acc \<le> m then take (Suc m - length acc) (map g ns) else map g ns)"
proof (induction ns arbitrary: acc)
  case Nil
  then show ?case by (simp split: option.splits)
next
  case (Cons n ns)
  show ?case
  proof (cases stop)
    case None
    then show ?thesis using Cons[of "acc @ [g n]"] by (simp add: collect_def)
  next
    case (Some m)
    consider "length acc < m" | "length acc = m" | "m < length acc" by linarith
    then show ?thesis
    proof cases
      case 1
      then show ?thesis using Some Cons[of "acc @ [g n]"]
        by (simp add: collect_def Suc_diff_le)
    next
      case 2
      then show ?thesis using Some by (simp add: collect_def)
    next
      case 3
      then show ?thesis using Some Cons[of "acc @ [g n]"] by (simp add: collect_def)
    qed
  qed
qed

lemma range_yield_collect_Nil:
  "range_yield (\<lambda>n. collect stop (g n)) ns [] =
     (case stop of None \<Rightarrow> map g ns | Some m \<Rightarrow> take (Suc m) (map g ns))"
  by (simp add: range_yield_collect split: option.splits)

text \<open>
  C8: for every cache whose length is between 0 and the number of slots, a consumer
  that takes everything from \<^verbatim>\<open>All\<close>, \<^verbatim>\<open>Keys\<close> or \<^verbatim>\<open>Values\<close> receives the pairs, the
  keys or the values of the slots 0, 1, ... up to the length, in this order, and a
  consumer that stops at the element of index \<open>m\<close> receives the first \<open>m + 1\<close> of
  them. The sequence is a function of the cache at the time it is consumed, and it is
  finite: the iterators are total.
\<close>

theorem C8_iterators:
  assumes "0 \<le> len c" and "len c \<le> int (length (data c))"
  shows "All' c (\<lambda>k v. collect stop (k, v)) [] =
           Some (case stop of
                   None \<Rightarrow> map (\<lambda>i. (key (data c ! i), val (data c ! i))) [0..<nat (len c)]
                 | Some m \<Rightarrow>
                     take (Suc m) (map (\<lambda>i. (key (data c ! i), val (data c ! i))) [0..<nat (len c)])) \<and>
         Keys c (collect stop) [] =
           Some (case stop of
                   None \<Rightarrow> map (\<lambda>i. key (data c ! i)) [0..<nat (len c)]
                 | Some m \<Rightarrow> take (Suc m) (map (\<lambda>i. key (data c ! i)) [0..<nat (len c)])) \<and>
         Values c (collect stop) [] =
           Some (case stop of
                   None \<Rightarrow> map (\<lambda>i. val (data c ! i)) [0..<nat (len c)]
                 | Some m \<Rightarrow> take (Suc m) (map (\<lambda>i. val (data c ! i)) [0..<nat (len c)]))"
proof -
  have ns: "take (nat (len c)) (data c) = map ((!) (data c)) [0..<nat (len c)]"
    using assms by (intro take_eq_map_nth) auto
  have "All' c (\<lambda>k v. collect stop (k, v)) [] =
      Some (range_yield (\<lambda>n. collect stop (key n, val n)) (take (nat (len c)) (data c)) [])"
    by (rule All_eq[OF assms])
  then have a: "All' c (\<lambda>k v. collect stop (k, v)) [] =
           Some (case stop of
                   None \<Rightarrow> map (\<lambda>i. (key (data c ! i), val (data c ! i))) [0..<nat (len c)]
                 | Some m \<Rightarrow>
                     take (Suc m) (map (\<lambda>i. (key (data c ! i), val (data c ! i))) [0..<nat (len c)]))"
    unfolding ns range_yield_collect_Nil[of stop "\<lambda>n. (key n, val n)"]
    by (simp add: comp_def split: option.splits)
  have "Keys c (collect stop) [] =
      Some (range_yield (\<lambda>n. collect stop (key n)) (take (nat (len c)) (data c)) [])"
    by (rule Keys_eq[OF assms])
  then have k: "Keys c (collect stop) [] =
           Some (case stop of
                   None \<Rightarrow> map (\<lambda>i. key (data c ! i)) [0..<nat (len c)]
                 | Some m \<Rightarrow> take (Suc m) (map (\<lambda>i. key (data c ! i)) [0..<nat (len c)]))"
    unfolding ns range_yield_collect_Nil[of stop key]
    by (simp add: comp_def split: option.splits)
  have "Values c (collect stop) [] =
      Some (range_yield (\<lambda>n. collect stop (val n)) (take (nat (len c)) (data c)) [])"
    by (rule Values_eq[OF assms])
  then have v: "Values c (collect stop) [] =
           Some (case stop of
                   None \<Rightarrow> map (\<lambda>i. val (data c ! i)) [0..<nat (len c)]
                 | Some m \<Rightarrow> take (Suc m) (map (\<lambda>i. val (data c ! i)) [0..<nat (len c)]))"
    unfolding ns range_yield_collect_Nil[of stop val]
    by (simp add: comp_def split: option.splits)
  show ?thesis using a k v by simp
qed

text \<open>
  An instance: full and one-element consumption on the cache holding \<^verbatim>\<open>a\<close> and \<^verbatim>\<open>b\<close>.
\<close>

theorem C8_iterators_witness:
  "0 \<le> len two_entries \<and> len two_entries \<le> int (length (data two_entries)) \<and>
   All' two_entries (\<lambda>k v. collect None (k, v)) [] = Some [(''a'', 1), (''b'', 2)] \<and>
   Keys two_entries (collect None) [] = Some [''a'', ''b''] \<and>
   Values two_entries (collect None) [] = Some [1, 2] \<and>
   All' two_entries (\<lambda>k v. collect (Some 0) (k, v)) [] = Some [(''a'', 1)] \<and>
   Keys two_entries (collect (Some 0)) [] = Some [''a''] \<and>
   Values two_entries (collect (Some 0)) [] = Some [1]"
proof -
  have h: "0 \<le> len two_entries" "len two_entries \<le> int (length (data two_entries))"
    by (simp_all add: two_entries_def)
  have n: "[0..<nat (len two_entries)] = [0, 1]" by (simp add: two_entries_def upt_rec)
  have d: "data two_entries ! 0 = \<lparr>next = 0, last' = 1, key = ''a'', val = 1\<rparr>"
    "data two_entries ! Suc 0 = \<lparr>next = 0, last' = 0, key = ''b'', val = 2\<rparr>"
    by (simp_all add: two_entries_def)
  show ?thesis
    using C8_iterators[OF h, of None] C8_iterators[OF h, of "Some 0"] h
    unfolding n by (simp add: d)
qed

end
